theory Spec2Isabelle
  imports Complex_Main "HOL-Library.Word" "HOL-Library.Signed_Division"
begin

unbundle bit_operations_syntax

section \<open>Shared data model\<close>

text \<open>
  A \<open>Uint8Array\<close> is a list of bytes.  JavaScript numbers that the code only ever uses
  as integers are \<open>int\<close> (or \<open>nat\<close> where they index a table); a read of a typed array
  outside its bounds yields \<open>undefined\<close>, which is \<open>None\<close> here.
\<close>

type_synonym byte = "8 word"

definition CHUNK_SIZE :: int where
  "CHUNK_SIZE = 16"

definition CHUNK_HEIGHT :: int where
  "CHUNK_HEIGHT = 256"

definition ATLAS_SIZE :: nat where
  "ATLAS_SIZE = 16"

definition CHUNK_VOLUME :: nat where
  "CHUNK_VOLUME = 16 * 256 * 16"

text \<open>\<open>blockIndex\<close> of the mesher, \<open>idx\<close> of the light engine, \<open>Chunk.getIndex\<close>.\<close>

definition blockIndex :: "int \<Rightarrow> int \<Rightarrow> int \<Rightarrow> int" where
  "blockIndex x y z = (x * CHUNK_SIZE + z) * CHUNK_HEIGHT + y"

text \<open>\<open>arr[i]\<close> on a \<open>Uint8Array\<close>, read as a number.\<close>

definition ta_get :: "byte list \<Rightarrow> int \<Rightarrow> nat option" where
  "ta_get arr i = (if 0 \<le> i \<and> i < int (length arr) then Some (unat (arr ! nat i)) else None)"

section \<open>ChunkMesher\<close>

record FaceTextures =
  top :: nat
  bottom :: nat
  side :: nat

record BlockInfo =
  transparent :: bool
  solid :: bool
  lightEmission :: nat
  faceTextures :: FaceTextures

text \<open>
  \<open>blockInfo\<close> is a JavaScript array indexed by block id, possibly with holes: a partial
  map.  The neighbour tables are objects keyed by the string \<open>"dx,dz"\<close>; the key is the
  pair \<open>(dx, dz)\<close>, and a missing or \<open>null\<close> entry is \<open>None\<close>.
\<close>

type_synonym block_table = "nat \<rightharpoonup> BlockInfo"
type_synonym neighbor_table = "int \<times> int \<rightharpoonup> byte list"

definition getBlock :: "byte list \<Rightarrow> int \<Rightarrow> int \<Rightarrow> int \<Rightarrow> nat option" where
  "getBlock blocks x y z =
     (if x < 0 \<or> x \<ge> CHUNK_SIZE \<or> y < 0 \<or> y \<ge> CHUNK_HEIGHT \<or> z < 0 \<or> z \<ge> CHUNK_SIZE
      then Some 0
      else ta_get blocks (blockIndex x y z))"

text \<open>The chunk offset and the wrapped coordinate along one lateral axis.\<close>

definition wrapAxis :: "int \<Rightarrow> int \<times> int" where
  "wrapAxis l =
     (if l < 0 then (- 1, l + CHUNK_SIZE)
      else if l \<ge> CHUNK_SIZE then (1, l - CHUNK_SIZE)
      else (0, l))"

definition getBlockOrNeighbor ::
  "byte list \<Rightarrow> int \<Rightarrow> int \<Rightarrow> int \<Rightarrow> neighbor_table \<Rightarrow> nat option" where
  "getBlockOrNeighbor blocks lx ly lz neighbors =
     (if ly < 0 \<or> ly \<ge> CHUNK_HEIGHT then Some 0
      else
        let (nx, sx) = wrapAxis lx; (nz, sz) = wrapAxis lz in
        if nx = 0 \<and> nz = 0 then ta_get blocks (blockIndex sx ly sz)
        else (case neighbors (nx, nz) of
                None \<Rightarrow> Some 0
              | Some nb \<Rightarrow> ta_get nb (blockIndex sx ly sz)))"

definition getLightOrNeighbor ::
  "byte list \<Rightarrow> int \<Rightarrow> int \<Rightarrow> int \<Rightarrow> neighbor_table \<Rightarrow> nat option" where
  "getLightOrNeighbor light lx ly lz neighborLights =
     (if ly \<ge> CHUNK_HEIGHT then Some 240
      else if ly < 0 then Some 0
      else
        let (nx, sx) = wrapAxis lx; (nz, sz) = wrapAxis lz in
        if nx = 0 \<and> nz = 0 then ta_get light (blockIndex sx ly sz)
        else (case neighborLights (nx, nz) of
                None \<Rightarrow> Some 240
              | Some nb \<Rightarrow> ta_get nb (blockIndex sx ly sz)))"

subsection \<open>Directions\<close>

definition DIR_UP :: nat where "DIR_UP = 0"
definition DIR_DOWN :: nat where "DIR_DOWN = 1"
definition DIR_NORTH :: nat where "DIR_NORTH = 2"
definition DIR_SOUTH :: nat where "DIR_SOUTH = 3"
definition DIR_EAST :: nat where "DIR_EAST = 4"
definition DIR_WEST :: nat where "DIR_WEST = 5"

definition DIRECTION_NORMALS :: "(int \<times> int \<times> int) list" where
  "DIRECTION_NORMALS =
     [(0, 1, 0), (0, - 1, 0), (0, 0, - 1), (0, 0, 1), (1, 0, 0), (- 1, 0, 0)]"

text \<open>\<open>info.faceTextures[dirToFace(dir)]\<close>.\<close>

definition dirToFace :: "nat \<Rightarrow> FaceTextures \<Rightarrow> nat" where
  "dirToFace dir = (if dir = DIR_UP then top else if dir = DIR_DOWN then bottom else side)"

subsection \<open>Ambient occlusion\<close>

definition vertexAO :: "nat \<Rightarrow> nat \<Rightarrow> nat \<Rightarrow> real" where
  "vertexAO side1 side2 corner =
     (let count = side1 + side2 + corner in
      if side1 = 1 \<and> side2 = 1 then 0.25
      else if count = 0 then 1.0
      else if count = 1 then 0.75
      else if count = 2 then 0.5
      else 0.25)"

text \<open>
  The argument is the value read from a block array; on \<open>undefined\<close> the comparison with
  0 fails and the table lookup \<open>blockInfo[undefined]\<close> finds nothing.
\<close>

definition isOccluder :: "nat option \<Rightarrow> block_table \<Rightarrow> nat" where
  "isOccluder blockId blockInfo =
     (case blockId of
        None \<Rightarrow> 0
      | Some b \<Rightarrow>
          if b = 0 then 0
          else (case blockInfo b of
                  None \<Rightarrow> 0
                | Some info \<Rightarrow> if solid info \<and> \<not> transparent info then 1 else 0))"

definition computeFaceAO ::
  "int \<Rightarrow> int \<Rightarrow> int \<Rightarrow> nat \<Rightarrow> byte list \<Rightarrow> neighbor_table \<Rightarrow> block_table
     \<Rightarrow> real \<times> real \<times> real \<times> real" where
  "computeFaceAO x y z dir blocks neighbors blockInfo =
     (let g = (\<lambda>dx dy dz.
                 isOccluder (getBlockOrNeighbor blocks (x + dx) (y + dy) (z + dz) neighbors)
                   blockInfo)
      in
      if dir = DIR_UP then
        let s0 = g (- 1) 1 0; s1 = g 1 1 0; s2 = g 0 1 (- 1); s3 = g 0 1 1;
            c0 = g (- 1) 1 (- 1); c1 = g 1 1 (- 1); c2 = g 1 1 1; c3 = g (- 1) 1 1
        in (vertexAO s0 s2 c0, vertexAO s1 s2 c1, vertexAO s1 s3 c2, vertexAO s0 s3 c3)
      else if dir = DIR_DOWN then
        let s0 = g (- 1) (- 1) 0; s1 = g 1 (- 1) 0; s2 = g 0 (- 1) (- 1); s3 = g 0 (- 1) 1;
            c0 = g (- 1) (- 1) (- 1); c1 = g 1 (- 1) (- 1); c2 = g 1 (- 1) 1;
            c3 = g (- 1) (- 1) 1
        in (vertexAO s0 s3 c3, vertexAO s1 s3 c2, vertexAO s1 s2 c1, vertexAO s0 s2 c0)
      else if dir = DIR_NORTH then
        let s0 = g (- 1) 0 (- 1); s1 = g 1 0 (- 1); s2 = g 0 (- 1) (- 1); s3 = g 0 1 (- 1);
            c0 = g (- 1) (- 1) (- 1); c1 = g 1 (- 1) (- 1); c2 = g 1 1 (- 1);
            c3 = g (- 1) 1 (- 1)
        in (vertexAO s1 s2 c1, vertexAO s0 s2 c0, vertexAO s0 s3 c3, vertexAO s1 s3 c2)
      else if dir = DIR_SOUTH then
        let s0 = g (- 1) 0 1; s1 = g 1 0 1; s2 = g 0 (- 1) 1; s3 = g 0 1 1;
            c0 = g (- 1) (- 1) 1; c1 = g 1 (- 1) 1; c2 = g 1 1 1; c3 = g (- 1) 1 1
        in (vertexAO s0 s2 c0, vertexAO s1 s2 c1, vertexAO s1 s3 c2, vertexAO s0 s3 c3)
      else if dir = DIR_EAST then
        let s0 = g 1 0 (- 1); s1 = g 1 0 1; s2 = g 1 (- 1) 0; s3 = g 1 1 0;
            c0 = g 1 (- 1) (- 1); c1 = g 1 (- 1) 1; c2 = g 1 1 1; c3 = g 1 1 (- 1)
        in (vertexAO s1 s2 c1, vertexAO s0 s2 c0, vertexAO s0 s3 c3, vertexAO s1 s3 c2)
      else if dir = DIR_WEST then
        let s0 = g (- 1) 0 (- 1); s1 = g (- 1) 0 1; s2 = g (- 1) (- 1) 0; s3 = g (- 1) 1 0;
            c0 = g (- 1) (- 1) (- 1); c1 = g (- 1) (- 1) 1; c2 = g (- 1) 1 1;
            c3 = g (- 1) 1 (- 1)
        in (vertexAO s0 s2 c0, vertexAO s1 s2 c1, vertexAO s1 s3 c2, vertexAO s0 s3 c3)
      else (1, 1, 1, 1))"

subsection \<open>Texture coordinates\<close>

text \<open>
  The atlas arithmetic is done in exact reals; the claims below never depend on the
  rounding of the texture coordinates.
\<close>

definition atlasUV :: "nat \<Rightarrow> real \<Rightarrow> real \<Rightarrow> real \<Rightarrow> real \<Rightarrow> real \<times> real \<times> real \<times> real" where
  "atlasUV texIndex u0 v0 u1 v1 =
     (let col = real (texIndex mod ATLAS_SIZE);
          row = real (texIndex div ATLAS_SIZE);
          tileU = 1 / real ATLAS_SIZE;
          tileV = 1 / real ATLAS_SIZE;
          eps = 0.001;
          baseU = col * tileU + eps;
          baseV = row * tileV + eps;
          maxU = (col + 1) * tileU - eps;
          maxV = (row + 1) * tileV - eps
      in (baseU + (maxU - baseU) * min u0 1,
          baseV + (maxV - baseV) * min v0 1,
          baseU + (maxU - baseU) * min u1 1,
          baseV + (maxV - baseV) * min v1 1))"

subsection \<open>Output buffers\<close>

record TempArrays =
  positions :: "int list"
  normals :: "int list"
  uvs :: "real list"
  aos :: "real list"
  lights :: "int list"
  indices :: "nat list"
  vertexCount :: nat

definition createTemp :: TempArrays where
  "createTemp = \<lparr>positions = [], normals = [], uvs = [], aos = [], lights = [],
                 indices = [], vertexCount = 0\<rparr>"

definition pushQuad ::
  "TempArrays \<Rightarrow> int \<times> int \<times> int \<Rightarrow> int \<times> int \<times> int \<Rightarrow> int \<times> int \<times> int \<Rightarrow> int \<times> int \<times> int
     \<Rightarrow> int \<times> int \<times> int \<Rightarrow> real \<times> real \<times> real \<times> real \<Rightarrow> real \<times> real \<times> real \<times> real
     \<Rightarrow> int \<Rightarrow> TempArrays" where
  "pushQuad tmp v0 v1 v2 v3 normal uv ao faceLight =
     (case (v0, v1, v2, v3, normal, uv, ao) of
        ((v0x, v0y, v0z), (v1x, v1y, v1z), (v2x, v2y, v2z), (v3x, v3y, v3z),
         (n0, n1, n2), (uv0, uv1, uv2, uv3), (ao0, ao1, ao2, ao3)) \<Rightarrow>
        let i = vertexCount tmp in
        tmp\<lparr>positions := positions tmp @
                 [v0x, v0y, v0z, v1x, v1y, v1z, v2x, v2y, v2z, v3x, v3y, v3z],
             normals := normals tmp @ concat (replicate 4 [n0, n1, n2]),
             uvs := uvs tmp @ [uv0, uv3, uv2, uv3, uv2, uv1, uv0, uv1],
             aos := aos tmp @ [ao0, ao1, ao2, ao3],
             lights := lights tmp @ [faceLight, faceLight, faceLight, faceLight],
             indices := indices tmp @
                 (if ao0 + ao2 > ao1 + ao3
                  then [i, i + 1, i + 2, i, i + 2, i + 3]
                  else [i + 1, i + 2, i + 3, i, i + 1, i + 3]),
             vertexCount := i + 4\<rparr>)"

text \<open>
  \<open>MeshData\<close>: the typed arrays handed back by \<open>toMeshData\<close>.  The worker derives the
  vertex count of a buffer as \<open>positions.length / 3\<close>.
\<close>

record MeshData =
  md_positions :: "int list"
  md_normals :: "int list"
  md_uvs :: "real list"
  md_aos :: "real list"
  md_lights :: "int list"
  md_indices :: "nat list"

definition toMeshData :: "TempArrays \<Rightarrow> MeshData" where
  "toMeshData tmp = \<lparr>md_positions = positions tmp, md_normals = normals tmp,
                      md_uvs = uvs tmp, md_aos = aos tmp, md_lights = lights tmp,
                      md_indices = indices tmp\<rparr>"

subsection \<open>Greedy meshing\<close>

text \<open>
  Reading a field of \<open>undefined\<close> throws a \<open>TypeError\<close> in JavaScript; it is the only
  way \<open>meshChunk\<close> can fail, and the model returns it as a value.
\<close>

datatype js_error = TypeError

record MeshCtx =
  c_blocks :: "byte list"
  c_cx :: int
  c_cz :: int
  c_neighborBlocks :: neighbor_table
  c_blockInfo :: block_table
  c_light :: "byte list"
  c_neighborLights :: neighbor_table

text \<open>The sweep axis, the two tangent axes (0 = X, 1 = Y, 2 = Z) and their extents.\<close>

definition dAxis :: "nat \<Rightarrow> nat" where
  "dAxis dir = (if dir = DIR_UP \<or> dir = DIR_DOWN then 1
                else if dir = DIR_NORTH \<or> dir = DIR_SOUTH then 2 else 0)"

definition uAxis :: "nat \<Rightarrow> nat" where
  "uAxis dir = (if dir = DIR_UP \<or> dir = DIR_DOWN then 0
                else if dir = DIR_NORTH \<or> dir = DIR_SOUTH then 0 else 2)"

definition vAxis :: "nat \<Rightarrow> nat" where
  "vAxis dir = (if dir = DIR_UP \<or> dir = DIR_DOWN then 2
                else if dir = DIR_NORTH \<or> dir = DIR_SOUTH then 1 else 1)"

definition dSize :: "nat \<Rightarrow> nat" where
  "dSize dir = (if dir = DIR_UP \<or> dir = DIR_DOWN then nat CHUNK_HEIGHT
                else if dir = DIR_NORTH \<or> dir = DIR_SOUTH then nat CHUNK_SIZE
                else nat CHUNK_SIZE)"

definition uSize :: "nat \<Rightarrow> nat" where
  "uSize dir = (if dir = DIR_UP \<or> dir = DIR_DOWN then nat CHUNK_SIZE
                else if dir = DIR_NORTH \<or> dir = DIR_SOUTH then nat CHUNK_SIZE
                else nat CHUNK_SIZE)"

definition vSize :: "nat \<Rightarrow> nat" where
  "vSize dir = (if dir = DIR_UP \<or> dir = DIR_DOWN then nat CHUNK_SIZE
                else if dir = DIR_NORTH \<or> dir = DIR_SOUTH then nat CHUNK_HEIGHT
                else nat CHUNK_HEIGHT)"

text \<open>\<open>pos = [0, 0, 0]; pos[dAxis] = d; pos[uAxis] = u; pos[vAxis] = v\<close>.\<close>

definition place3 :: "nat \<Rightarrow> int \<Rightarrow> int \<Rightarrow> int \<Rightarrow> int list" where
  "place3 dir d u v = [0, 0, 0][dAxis dir := d, uAxis dir := u, vAxis dir := v]"

text \<open>
  The visibility test of one face, given the block of the cell, its table entry and the
  value read across the face.
\<close>

definition faceVisible :: "nat \<Rightarrow> BlockInfo \<Rightarrow> nat option \<Rightarrow> block_table \<Rightarrow> bool" where
  "faceVisible blockId info neighborId blockInfo =
     (case neighborId of
        None \<Rightarrow> False
      | Some n \<Rightarrow>
          if n = 0 then True
          else (case blockInfo n of
                  None \<Rightarrow> False
                | Some neighborInfo \<Rightarrow>
                    transparent neighborInfo \<and> (\<not> transparent info \<or> blockId \<noteq> n)))"

text \<open>
  The body of the mask-building loop for one cell: \<open>Some m\<close> when the cell is written
  with \<open>m\<close>, \<open>None\<close> when the loop leaves it alone.  An \<open>undefined\<close> face light shifts
  to 0.
\<close>

definition maskEntry :: "MeshCtx \<Rightarrow> nat \<Rightarrow> nat \<Rightarrow> nat \<Rightarrow> nat \<Rightarrow> int option" where
  "maskEntry C dir d u v =
     (let pos = place3 dir (int d) (int u) (int v);
          lx = pos ! 0; ly = pos ! 1; lz = pos ! 2
      in case getBlock (c_blocks C) lx ly lz of
           None \<Rightarrow> None
         | Some blockId \<Rightarrow>
             if blockId = 0 then None
             else (case c_blockInfo C blockId of
                     None \<Rightarrow> None
                   | Some info \<Rightarrow>
                       (case DIRECTION_NORMALS ! dir of (n0, n1, n2) \<Rightarrow>
                          let nlx = lx + n0; nly = ly + n1; nlz = lz + n2;
                              neighborId =
                                getBlockOrNeighbor (c_blocks C) nlx nly nlz (c_neighborBlocks C)
                          in if faceVisible blockId info neighborId (c_blockInfo C)
                             then
                               let faceLight =
                                     (case getLightOrNeighbor (c_light C) nlx nly nlz
                                             (c_neighborLights C) of
                                        None \<Rightarrow> 0
                                      | Some l \<Rightarrow> int l)
                               in Some (int blockId OR push_bit 8 faceLight)
                             else None)))"

definition buildMask :: "MeshCtx \<Rightarrow> nat \<Rightarrow> nat \<Rightarrow> int list \<Rightarrow> int list" where
  "buildMask C dir d msk =
     fold (\<lambda>v m.
        fold (\<lambda>u m. case maskEntry C dir d u v of
                       None \<Rightarrow> m
                     | Some x \<Rightarrow> m[v * uSize dir + u := x])
          [0..<uSize dir] m)
       [0..<vSize dir] (replicate (length msk) 0)"

function widthLoop :: "int list \<Rightarrow> nat \<Rightarrow> nat \<Rightarrow> nat \<Rightarrow> nat \<Rightarrow> int \<Rightarrow> nat" where
  "widthLoop msk us v u w maskVal =
     (if u + w < us \<and> msk ! (v * us + u + w) = maskVal
      then widthLoop msk us v u (w + 1) maskVal
      else w)"
  by pat_completeness auto
termination
  by (relation "measure (\<lambda>(msk, us, v, u, w, maskVal). us - (u + w))") auto

declare widthLoop.simps [simp del]

text \<open>The inner \<open>for\<close> loop of the height search: does row \<open>v + h\<close> match over the width?\<close>

definition rowMatches :: "int list \<Rightarrow> nat \<Rightarrow> nat \<Rightarrow> nat \<Rightarrow> nat \<Rightarrow> nat \<Rightarrow> int \<Rightarrow> bool" where
  "rowMatches msk us v h u w maskVal =
     list_all (\<lambda>wu. msk ! ((v + h) * us + u + wu) = maskVal) [0..<w]"

function heightLoop ::
  "int list \<Rightarrow> nat \<Rightarrow> nat \<Rightarrow> nat \<Rightarrow> nat \<Rightarrow> nat \<Rightarrow> nat \<Rightarrow> int \<Rightarrow> nat" where
  "heightLoop msk us vs v u w h maskVal =
     (if v + h < vs \<and> rowMatches msk us v h u w maskVal
      then heightLoop msk us vs v u w (h + 1) maskVal
      else h)"
  by pat_completeness auto
termination
  by (relation "measure (\<lambda>(msk, us, vs, v, u, w, h, maskVal). vs - (v + h))") auto

declare heightLoop.simps [simp del]

definition clearRegion :: "int list \<Rightarrow> nat \<Rightarrow> nat \<Rightarrow> nat \<Rightarrow> nat \<Rightarrow> nat \<Rightarrow> int list" where
  "clearRegion msk us v u w h =
     fold (\<lambda>hh m. fold (\<lambda>ww m. m[(v + hh) * us + u + ww := 0]) [0..<w] m) [0..<h] msk"

text \<open>
  Emitting the quad of a merged rectangle into the opaque or the transparent buffer
  (the pair \<open>(opaque, transparent)\<close>).
\<close>

definition emitQuad ::
  "MeshCtx \<Rightarrow> nat \<Rightarrow> nat \<Rightarrow> nat \<Rightarrow> nat \<Rightarrow> nat \<Rightarrow> nat \<Rightarrow> int \<Rightarrow> TempArrays \<times> TempArrays
     \<Rightarrow> js_error + TempArrays \<times> TempArrays" where
  "emitQuad C dir d u v w h maskVal bufs =
     (let blockId = nat (maskVal AND 255);
          faceLight = drop_bit 8 maskVal AND 255
      in case c_blockInfo C blockId of
           None \<Rightarrow> Inl TypeError
         | Some info \<Rightarrow>
             let texIndex = dirToFace dir (faceTextures info);
                 base0 = place3 dir (int d) (int u) (int v);
                 base = (if dir = DIR_UP \<or> dir = DIR_SOUTH \<or> dir = DIR_EAST
                         then base0[dAxis dir := base0 ! dAxis dir + 1] else base0);
                 du = [0, 0, 0][uAxis dir := int w];
                 dv = [0, 0, 0][vAxis dir := int h];
                 wx = c_cx C * CHUNK_SIZE;
                 wz = c_cz C * CHUNK_SIZE;
                 b = (base ! 0 + wx, base ! 1, base ! 2 + wz);
                 bdu = (fst b + du ! 0, fst (snd b) + du ! 1, snd (snd b) + du ! 2);
                 bdv = (fst b + dv ! 0, fst (snd b) + dv ! 1, snd (snd b) + dv ! 2);
                 bduv = (fst b + du ! 0 + dv ! 0, fst (snd b) + du ! 1 + dv ! 1,
                         snd (snd b) + du ! 2 + dv ! 2);
                 vs = (if dir = DIR_UP then (b, bdu, bduv, bdv)
                       else if dir = DIR_DOWN then (bdv, bduv, bdu, b)
                       else if dir = DIR_NORTH then (bdu, b, bdv, bduv)
                       else if dir = DIR_SOUTH then (b, bdu, bduv, bdv)
                       else if dir = DIR_EAST then (b, bdv, bduv, bdu)
                       else if dir = DIR_WEST then (bdu, bduv, bdv, b)
                       else (b, bdu, bduv, bdv));
                 uv = atlasUV texIndex 0 0 1 1;
                 aoPos = place3 dir (int d) (int u) (int v);
                 ao = computeFaceAO (aoPos ! 0) (aoPos ! 1) (aoPos ! 2) dir
                        (c_blocks C) (c_neighborBlocks C) (c_blockInfo C)
             in case vs of (v0, v1, v2, v3) \<Rightarrow>
                  if transparent info
                  then Inr (fst bufs,
                            pushQuad (snd bufs) v0 v1 v2 v3 (DIRECTION_NORMALS ! dir) uv ao faceLight)
                  else Inr (pushQuad (fst bufs) v0 v1 v2 v3 (DIRECTION_NORMALS ! dir) uv ao faceLight,
                            snd bufs))"

text \<open>The state of the sweep: the slice mask and the two buffers under construction.\<close>

record MeshState =
  st_mask :: "int list"
  st_bufs :: "TempArrays \<times> TempArrays"

lemma widthLoop_ge: "w \<le> widthLoop msk us v u w maskVal"
proof (induction msk us v u w maskVal rule: widthLoop.induct)
  case (1 msk us v u w maskVal)
  then show ?case
    by (subst widthLoop.simps) (auto dest: Suc_leD)
qed

text \<open>The inner loop over \<open>u\<close> of the greedy merge, for one row \<open>v\<close> of the mask.\<close>

function rowLoop :: "MeshCtx \<Rightarrow> nat \<Rightarrow> nat \<Rightarrow> nat \<Rightarrow> nat \<Rightarrow> MeshState \<Rightarrow> js_error + MeshState" where
  "rowLoop C dir d v u s =
     (if u < uSize dir then
        let maskVal = st_mask s ! (v * uSize dir + u) in
        if maskVal = 0 then rowLoop C dir d v (u + 1) s
        else
          let w = widthLoop (st_mask s) (uSize dir) v u 1 maskVal;
              h = heightLoop (st_mask s) (uSize dir) (vSize dir) v u w 1 maskVal;
              cleared = clearRegion (st_mask s) (uSize dir) v u w h
          in case emitQuad C dir d u v w h maskVal (st_bufs s) of
               Inl e \<Rightarrow> Inl e
             | Inr bufs \<Rightarrow> rowLoop C dir d v (u + w) \<lparr>st_mask = cleared, st_bufs = bufs\<rparr>
      else Inr s)"
  by pat_completeness auto
termination
proof (relation "measure (\<lambda>(C, dir, d, v, u, s). uSize dir - u)")
  show "wf (measure (\<lambda>(C, dir, d, v, u, s). uSize dir - u))"
    by simp
next
  fix C :: MeshCtx and dir d v u :: nat and s :: MeshState and maskVal :: int
  assume "u < uSize dir"
  then show "((C, dir, d, v, u + 1, s), (C, dir, d, v, u, s))
               \<in> measure (\<lambda>(C, dir, d, v, u, s). uSize dir - u)"
    by simp
next
  fix C :: MeshCtx and dir d v u w h :: nat and s :: MeshState and maskVal :: int
    and cleared :: "int list" and bufs :: "TempArrays \<times> TempArrays"
  assume "u < uSize dir" and "w = widthLoop (st_mask s) (uSize dir) v u 1 maskVal"
  moreover have "1 \<le> widthLoop (st_mask s) (uSize dir) v u 1 maskVal"
    by (rule widthLoop_ge)
  ultimately show "((C, dir, d, v, u + w, \<lparr>st_mask = cleared, st_bufs = bufs\<rparr>), (C, dir, d, v, u, s))
               \<in> measure (\<lambda>(C, dir, d, v, u, s). uSize dir - u)"
    by simp
qed

declare rowLoop.simps [simp del]

text \<open>Sequencing a loop body over a list of indices, stopping at the first error.\<close>

fun foldE :: "('a \<Rightarrow> 's \<Rightarrow> 'e + 's) \<Rightarrow> 'a list \<Rightarrow> 's \<Rightarrow> 'e + 's" where
  "foldE f [] s = Inr s"
| "foldE f (x # xs) s = (case f x s of Inl e \<Rightarrow> Inl e | Inr s' \<Rightarrow> foldE f xs s')"

text \<open>One slice: fill the mask with 0, build it, merge it greedily.\<close>

definition meshSlice :: "MeshCtx \<Rightarrow> nat \<Rightarrow> nat \<Rightarrow> MeshState \<Rightarrow> js_error + MeshState" where
  "meshSlice C dir d s =
     foldE (\<lambda>v. rowLoop C dir d v 0) [0..<vSize dir]
       (s\<lparr>st_mask := buildMask C dir d (st_mask s)\<rparr>)"

text \<open>One face direction: a fresh mask, then every slice along the sweep axis.\<close>

definition meshDir ::
  "MeshCtx \<Rightarrow> nat \<Rightarrow> TempArrays \<times> TempArrays \<Rightarrow> js_error + TempArrays \<times> TempArrays" where
  "meshDir C dir bufs =
     (case foldE (meshSlice C dir) [0..<dSize dir]
             \<lparr>st_mask = replicate (uSize dir * vSize dir) 0, st_bufs = bufs\<rparr> of
        Inl e \<Rightarrow> Inl e
      | Inr s \<Rightarrow> Inr (st_bufs s))"

definition meshChunk ::
  "byte list \<Rightarrow> int \<Rightarrow> int \<Rightarrow> neighbor_table \<Rightarrow> block_table \<Rightarrow> byte list \<Rightarrow> neighbor_table
     \<Rightarrow> js_error + MeshData \<times> MeshData" where
  "meshChunk blocks cx cz neighborBlocks blockInfo light neighborLights =
     (let C = \<lparr>c_blocks = blocks, c_cx = cx, c_cz = cz, c_neighborBlocks = neighborBlocks,
               c_blockInfo = blockInfo, c_light = light, c_neighborLights = neighborLights\<rparr>
      in case foldE (meshDir C) [0..<6] (createTemp, createTemp) of
           Inl e \<Rightarrow> Inl e
         | Inr (opaqueT, transparentT) \<Rightarrow> Inr (toMeshData opaqueT, toMeshData transparentT))"

subsection \<open>Test fixtures\<close>


definition fillChunk :: "byte \<Rightarrow> byte list" where
  "fillChunk b = replicate CHUNK_VOLUME b"

definition demoInfo :: "bool \<Rightarrow> BlockInfo" where
  "demoInfo t = \<lparr>transparent = t, solid = \<not> t, lightEmission = 0,
                  faceTextures = \<lparr>top = 1, bottom = 1, side = 1\<rparr>\<rparr>"

definition demoTable :: block_table where
  "demoTable = [1 \<mapsto> demoInfo False, 2 \<mapsto> demoInfo True]"


subsection \<open>Predicates on masks and buffers\<close>

text \<open>
  \<open>quadClosed P\<close>: every quad the mesher can push preserves \<open>P\<close>.  \<open>wfTemp\<close> and
  \<open>wfMesh\<close>: the parallel arrays agree with the vertex count.  \<open>entryOk\<close>: a mask
  entry is empty or carries a block id that has a table entry.
\<close>

definition quadClosed :: "(TempArrays \<Rightarrow> bool) \<Rightarrow> MeshCtx \<Rightarrow> bool" where
  "quadClosed P C \<longleftrightarrow>
     (\<forall>t v0 v1 v2 v3 n uv x y z dir fl.
        P t \<longrightarrow>
        P (pushQuad t v0 v1 v2 v3 n uv
             (computeFaceAO x y z dir (c_blocks C) (c_neighborBlocks C) (c_blockInfo C)) fl))"

definition bufsOk :: "(TempArrays \<Rightarrow> bool) \<Rightarrow> MeshState \<Rightarrow> bool" where
  "bufsOk P s \<longleftrightarrow> P (fst (st_bufs s)) \<and> P (snd (st_bufs s))"

definition wfTemp :: "TempArrays \<Rightarrow> bool" where
  "wfTemp t \<longleftrightarrow>
     length (positions t) = 3 * vertexCount t \<and>
     length (normals t) = 3 * vertexCount t \<and>
     length (uvs t) = 2 * vertexCount t \<and>
     length (aos t) = vertexCount t \<and>
     length (lights t) = vertexCount t \<and>
     2 * length (indices t) = 3 * vertexCount t \<and>
     (\<forall>i \<in> set (indices t). i < vertexCount t)"

definition vertexCountOf :: "MeshData \<Rightarrow> nat" where
  "vertexCountOf md = length (md_positions md) div 3"



definition entryOk :: "MeshCtx \<Rightarrow> int \<Rightarrow> bool" where
  "entryOk C m \<longleftrightarrow> m = 0 \<or> c_blockInfo C (nat (m AND 255)) \<noteq> None"

definition maskOk :: "MeshCtx \<Rightarrow> nat \<Rightarrow> int list \<Rightarrow> bool" where
  "maskOk C dir msk \<longleftrightarrow> length msk = uSize dir * vSize dir \<and> list_all (entryOk C) msk"

definition wfMesh :: "MeshData \<Rightarrow> bool" where
  "wfMesh md \<longleftrightarrow>
     length (md_positions md) = 3 * vertexCountOf md \<and>
     length (md_normals md) = 3 * vertexCountOf md \<and>
     length (md_uvs md) = 2 * vertexCountOf md \<and>
     length (md_aos md) = vertexCountOf md \<and>
     length (md_lights md) = vertexCountOf md \<and>
     2 * length (md_indices md) = 3 * vertexCountOf md \<and>
     list_all (\<lambda>i. i < vertexCountOf md) (md_indices md)"

section \<open>Properties of the mesher\<close>

lemmas dir_defs = DIR_UP_def DIR_DOWN_def DIR_NORTH_def DIR_SOUTH_def DIR_EAST_def DIR_WEST_def
lemmas axis_defs = dAxis_def uAxis_def vAxis_def dSize_def uSize_def vSize_def













subsection \<open>Invariants of the sweep\<close>

lemma foldE_invariant:
  assumes "\<And>x s s'. I s \<Longrightarrow> f x s = Inr s' \<Longrightarrow> I s'"
    and "I s" and "foldE f xs s = Inr s'"
  shows "I s'"
  using assms(2,3)
proof (induction xs arbitrary: s)
  case Nil
  then show ?case by simp
next
  case (Cons x xs)
  then show ?case
    by (auto split: sum.splits intro: assms(1))
qed

lemma emitQuad_None:
  "c_blockInfo C (nat (maskVal AND 255)) = None \<Longrightarrow>
   emitQuad C dir d u v w h maskVal bufs = Inl TypeError"
  by (simp add: emitQuad_def)

lemma emitQuad_Some:
  assumes "c_blockInfo C (nat (maskVal AND 255)) = Some info"
  shows "\<exists>v0 v1 v2 v3 uv x y z fl.
     emitQuad C dir d u v w h maskVal bufs =
       (if transparent info
        then Inr (fst bufs,
                  pushQuad (snd bufs) v0 v1 v2 v3 (DIRECTION_NORMALS ! dir) uv
                    (computeFaceAO x y z dir (c_blocks C) (c_neighborBlocks C) (c_blockInfo C)) fl)
        else Inr (pushQuad (fst bufs) v0 v1 v2 v3 (DIRECTION_NORMALS ! dir) uv
                    (computeFaceAO x y z dir (c_blocks C) (c_neighborBlocks C) (c_blockInfo C)) fl,
                  snd bufs))"
  unfolding emitQuad_def Let_def case_prod_beta using assms
  by (simp only: option.case) blast

lemma emitQuad_total:
  "c_blockInfo C (nat (maskVal AND 255)) \<noteq> None \<Longrightarrow>
   \<exists>bufs'. emitQuad C dir d u v w h maskVal bufs = Inr bufs'"
proof -
  assume "c_blockInfo C (nat (maskVal AND 255)) \<noteq> None"
  then obtain info where "c_blockInfo C (nat (maskVal AND 255)) = Some info" by auto
  from emitQuad_Some [OF this, of dir d u v w h bufs] show ?thesis
    by (cases "transparent info") auto
qed

lemma emitQuad_invariant:
  assumes "quadClosed P C" and "P (fst bufs)" and "P (snd bufs)"
    and "emitQuad C dir d u v w h maskVal bufs = Inr bufs'"
  shows "P (fst bufs') \<and> P (snd bufs')"
proof (cases "c_blockInfo C (nat (maskVal AND 255))")
  case None
  with assms(4) show ?thesis by (simp add: emitQuad_None)
next
  case (Some info)
  from assms(1) have step: "\<And>t v0 v1 v2 v3 n uv x y z dir fl. P t \<Longrightarrow>
      P (pushQuad t v0 v1 v2 v3 n uv
           (computeFaceAO x y z dir (c_blocks C) (c_neighborBlocks C) (c_blockInfo C)) fl)"
    unfolding quadClosed_def by blast
  from emitQuad_Some [OF Some, of dir d u v w h bufs] assms(2-) show ?thesis
    by (cases "transparent info") (auto simp add: step)
qed

lemma rowLoop_done: "\<not> u < uSize dir \<Longrightarrow> rowLoop C dir d v u s = Inr s"
  by (subst rowLoop.simps) simp

lemma rowLoop_skip:
  "u < uSize dir \<Longrightarrow> st_mask s ! (v * uSize dir + u) = 0 \<Longrightarrow>
   rowLoop C dir d v u s = rowLoop C dir d v (u + 1) s"
  by (subst rowLoop.simps) simp

lemma rowLoop_emit:
  "u < uSize dir \<Longrightarrow> maskVal = st_mask s ! (v * uSize dir + u) \<Longrightarrow> maskVal \<noteq> 0 \<Longrightarrow>
   w = widthLoop (st_mask s) (uSize dir) v u 1 maskVal \<Longrightarrow>
   h = heightLoop (st_mask s) (uSize dir) (vSize dir) v u w 1 maskVal \<Longrightarrow>
   cleared = clearRegion (st_mask s) (uSize dir) v u w h \<Longrightarrow>
   rowLoop C dir d v u s =
     (case emitQuad C dir d u v w h maskVal (st_bufs s) of
        Inl e \<Rightarrow> Inl e
      | Inr bufs \<Rightarrow> rowLoop C dir d v (u + w) \<lparr>st_mask = cleared, st_bufs = bufs\<rparr>)"
  by (subst rowLoop.simps) (auto simp add: Let_def)

lemma rowLoop_invariant:
  "quadClosed P C \<Longrightarrow> bufsOk P s \<Longrightarrow> rowLoop C dir d v u s = Inr s' \<Longrightarrow> bufsOk P s'"
proof (induction C dir d v u s rule: rowLoop.induct)
  case (1 C dir d v u s)
  show ?case
  proof (cases "u < uSize dir")
    case False
    with "1.prems" show ?thesis
      by (simp add: rowLoop_done)
  next
    case inr: True
    define maskVal where "maskVal = st_mask s ! (v * uSize dir + u)"
    show ?thesis
    proof (cases "maskVal = 0")
      case True
      with inr "1.prems" "1.IH"(1) [OF inr maskVal_def] show ?thesis
        by (simp add: rowLoop_skip maskVal_def)
    next
      case nz: False
      define w where "w = widthLoop (st_mask s) (uSize dir) v u 1 maskVal"
      define h where "h = heightLoop (st_mask s) (uSize dir) (vSize dir) v u w 1 maskVal"
      define cleared where "cleared = clearRegion (st_mask s) (uSize dir) v u w h"
      from "1.prems"(3) obtain bufs where
        e: "emitQuad C dir d u v w h maskVal (st_bufs s) = Inr bufs"
        and r: "rowLoop C dir d v (u + w) \<lparr>st_mask = cleared, st_bufs = bufs\<rparr> = Inr s'"
        unfolding rowLoop_emit [OF inr maskVal_def nz w_def h_def cleared_def]
        by (auto split: sum.splits)
      from emitQuad_invariant [OF "1.prems"(1) _ _ e] "1.prems"(2)
      have "bufsOk P \<lparr>st_mask = cleared, st_bufs = bufs\<rparr>"
        by (simp add: bufsOk_def)
      from "1.IH"(2) [OF inr maskVal_def nz w_def h_def cleared_def e "1.prems"(1) this r]
      show ?thesis .
    qed
  qed
qed


lemma meshSlice_invariant:
  assumes "quadClosed P C" and "bufsOk P s" and "meshSlice C dir d s = Inr s'"
  shows "bufsOk P s'"
proof -
  have start: "bufsOk P (s\<lparr>st_mask := buildMask C dir d (st_mask s)\<rparr>)"
    using assms(2) by (simp add: bufsOk_def)
  show ?thesis
    using assms(3) unfolding meshSlice_def
    by (rule foldE_invariant [where I = "bufsOk P", rotated 2])
      (auto intro: rowLoop_invariant [OF assms(1)] start)
qed

lemma meshDir_invariant:
  assumes "quadClosed P C" and "P (fst bufs)" and "P (snd bufs)"
    and "meshDir C dir bufs = Inr bufs'"
  shows "P (fst bufs') \<and> P (snd bufs')"
proof -
  from assms(4) obtain s' where
    f: "foldE (meshSlice C dir) [0..<dSize dir]
          \<lparr>st_mask = replicate (uSize dir * vSize dir) 0, st_bufs = bufs\<rparr> = Inr s'"
    and b: "bufs' = st_bufs s'"
    by (auto simp add: meshDir_def split: sum.splits)
  have "bufsOk P s'"
  proof (rule foldE_invariant [where I = "bufsOk P", OF _ _ f])
    show "bufsOk P \<lparr>st_mask = replicate (uSize dir * vSize dir) 0, st_bufs = bufs\<rparr>"
      by (simp add: bufsOk_def assms(2,3))
  next
    fix x s t
    assume "bufsOk P s" and "meshSlice C dir x s = Inr t"
    then show "bufsOk P t"
      by (rule meshSlice_invariant [OF assms(1)])
  qed
  then show ?thesis
    by (simp add: bufsOk_def b)
qed

lemma meshChunk_invariant:
  assumes "quadClosed P \<lparr>c_blocks = blocks, c_cx = cx, c_cz = cz, c_neighborBlocks = nb,
               c_blockInfo = bi, c_light = light, c_neighborLights = nl\<rparr>"
    and "P createTemp"
    and "meshChunk blocks cx cz nb bi light nl = Inr (om, tm)"
  shows "\<exists>ot tt. om = toMeshData ot \<and> tm = toMeshData tt \<and> P ot \<and> P tt"
proof -
  define C where "C = \<lparr>c_blocks = blocks, c_cx = cx, c_cz = cz, c_neighborBlocks = nb,
               c_blockInfo = bi, c_light = light, c_neighborLights = nl\<rparr>"
  from assms(3) obtain ot tt where
    f: "foldE (meshDir C) [0..<6] (createTemp, createTemp) = Inr (ot, tt)"
    and r: "om = toMeshData ot" "tm = toMeshData tt"
    by (auto simp add: meshChunk_def Let_def C_def split: sum.splits prod.splits)
  have "P (fst (ot, tt)) \<and> P (snd (ot, tt))"
    using f
    by (rule foldE_invariant [where I = "\<lambda>b. P (fst b) \<and> P (snd b)", rotated 2])
      (auto dest: meshDir_invariant [OF assms(1) [folded C_def], rotated 2] simp add: assms(2))
  with r show ?thesis by auto
qed

subsection \<open>Buffer well-formedness and ambient-occlusion levels\<close>

lemma wfTemp_createTemp: "wfTemp createTemp"
  by (simp add: wfTemp_def createTemp_def)

lemma replicate4_normal: "concat (replicate 4 [a, b, c]) = [a, b, c, a, b, c, a, b, c, a, b, c]"
  by (simp add: numeral_eq_Suc)

lemma wfTemp_pushQuad: "wfTemp t \<Longrightarrow> wfTemp (pushQuad t v0 v1 v2 v3 n uv ao fl)"
  by (cases v0; cases v1; cases v2; cases v3; cases n; cases uv; cases ao)
    (auto simp add: wfTemp_def pushQuad_def Let_def replicate4_normal)




subsection \<open>The mesher never throws\<close>

lemma ta_get_byte: "ta_get arr i = Some b \<Longrightarrow> b < 256"
proof -
  have "unat (w :: byte) < 256" for w
    using unsigned_less [of w, where 'a = nat] by simp
  then show "ta_get arr i = Some b \<Longrightarrow> b < 256"
    by (auto simp add: ta_get_def split: if_splits)
qed

lemma getBlock_byte: "getBlock blocks x y z = Some b \<Longrightarrow> b < 256"
  by (auto simp add: getBlock_def dest: ta_get_byte split: if_splits)

lemma unpack_blockId:
  assumes "b < 256"
  shows "nat ((int b OR push_bit 8 fl) AND 255) = b"
proof -
  have "(int b OR push_bit 8 fl) AND 255 = take_bit 8 (int b OR push_bit 8 fl)"
    by (simp add: take_bit_eq_mask mask_eq_exp_minus_1)
  also have "\<dots> = take_bit 8 (int b) OR take_bit 8 (push_bit 8 fl)"
    by (simp add: take_bit_or)
  also have "take_bit 8 (push_bit 8 fl) = 0"
    by (simp add: take_bit_push_bit)
  also have "take_bit 8 (int b) = int b"
    using assms by (simp add: take_bit_int_eq_self)
  finally show ?thesis by simp
qed

lemma unpack_blockId_dark: "b < 256 \<Longrightarrow> nat (int b AND 255) = b"
  using unpack_blockId [of b 0] by simp

lemma maskEntry_ok: "maskEntry C dir d u v = Some m \<Longrightarrow> entryOk C m"
  by (auto simp add: maskEntry_def entryOk_def Let_def unpack_blockId unpack_blockId_dark dest: getBlock_byte
      split: option.splits if_splits prod.splits)

lemma list_all_update: "list_all P xs \<Longrightarrow> P y \<Longrightarrow> list_all P (xs[i := y])"
  by (induction xs arbitrary: i) (auto split: nat.splits)

lemma fold_update_all:
  assumes "\<And>x y. g x = Some y \<Longrightarrow> P y"
  shows "list_all P m \<Longrightarrow>
         list_all P (fold (\<lambda>x m. case g x of None \<Rightarrow> m | Some y \<Rightarrow> m[f x := y]) xs m)"
  by (induction xs arbitrary: m) (auto intro: list_all_update assms split: option.splits)

lemma fold_update_length:
  "length (fold (\<lambda>x m. case g x of None \<Rightarrow> m | Some y \<Rightarrow> m[f x := y]) xs m) = length m"
  by (induction xs arbitrary: m) (auto split: option.splits)

lemma buildMask_length: "length (buildMask C dir d msk) = length msk"
proof -
  have "length (fold (\<lambda>v m. fold (\<lambda>u m. case maskEntry C dir d u v of None \<Rightarrow> m
            | Some x \<Rightarrow> m[v * uSize dir + u := x]) [0..<uSize dir] m) vs m0) = length m0"
    for vs m0
    by (induction vs arbitrary: m0) (simp_all add: fold_update_length)
  then show ?thesis by (simp add: buildMask_def)
qed

lemma buildMask_all: "list_all (entryOk C) (buildMask C dir d msk)"
proof -
  have "list_all (entryOk C) m0 \<Longrightarrow>
      list_all (entryOk C) (fold (\<lambda>v m. fold (\<lambda>u m. case maskEntry C dir d u v of None \<Rightarrow> m
            | Some x \<Rightarrow> m[v * uSize dir + u := x]) [0..<uSize dir] m) vs m0)"
    for vs m0
    by (induction vs arbitrary: m0) (simp_all add: fold_update_all maskEntry_ok)
  moreover have "list_all (entryOk C) (replicate (length msk) 0)"
    by (simp add: list_all_iff entryOk_def)
  ultimately show ?thesis by (simp add: buildMask_def)
qed

lemma clearRegion_length: "length (clearRegion msk us v u w h) = length msk"
proof -
  have inner: "length (fold (\<lambda>ww m. m[(v + hh) * us + u + ww := 0]) ws m) = length m" for ws hh
    and m :: "int list"
    by (induction ws arbitrary: m) simp_all
  have "length (fold (\<lambda>hh m. fold (\<lambda>ww m. m[(v + hh) * us + u + ww := 0]) [0..<w] m) hs m)
      = length m" for hs and m :: "int list"
    by (induction hs arbitrary: m) (simp_all add: inner)
  then show ?thesis by (simp add: clearRegion_def)
qed

lemma clearRegion_all:
  assumes "list_all (entryOk C) msk"
  shows "list_all (entryOk C) (clearRegion msk us v u w h)"
proof -
  have z: "entryOk C 0" by (simp add: entryOk_def)
  have inner: "list_all (entryOk C) m \<Longrightarrow>
      list_all (entryOk C) (fold (\<lambda>ww m. m[(v + hh) * us + u + ww := 0]) ws m)" for ws hh m
    by (induction ws arbitrary: m) (simp_all add: list_all_update z)
  have "list_all (entryOk C) m \<Longrightarrow>
      list_all (entryOk C)
        (fold (\<lambda>hh m. fold (\<lambda>ww m. m[(v + hh) * us + u + ww := 0]) [0..<w] m) hs m)" for hs m
    by (induction hs arbitrary: m) (simp_all add: inner)
  with assms show ?thesis by (simp add: clearRegion_def)
qed

lemma rowLoop_total:
  "maskOk C dir (st_mask s) \<Longrightarrow> v < vSize dir \<Longrightarrow>
   \<exists>s'. rowLoop C dir d v u s = Inr s' \<and> maskOk C dir (st_mask s')"
proof (induction C dir d v u s rule: rowLoop.induct)
  case (1 C dir d v u s)
  show ?case
  proof (cases "u < uSize dir")
    case False
    with "1.prems" show ?thesis
      by (simp add: rowLoop_done)
  next
    case inr: True
    define maskVal where "maskVal = st_mask s ! (v * uSize dir + u)"
    show ?thesis
    proof (cases "maskVal = 0")
      case True
      with inr "1.prems" "1.IH"(1) [OF inr maskVal_def] show ?thesis
        by (simp add: rowLoop_skip maskVal_def)
    next
      case nz: False
      define w where "w = widthLoop (st_mask s) (uSize dir) v u 1 maskVal"
      define h where "h = heightLoop (st_mask s) (uSize dir) (vSize dir) v u w 1 maskVal"
      define cleared where "cleared = clearRegion (st_mask s) (uSize dir) v u w h"
      have "v * uSize dir + u < uSize dir * vSize dir"
      proof -
        have "v * uSize dir + u < v * uSize dir + uSize dir" using inr by simp
        also have "\<dots> = (v + 1) * uSize dir" by simp
        also have "\<dots> \<le> vSize dir * uSize dir"
          using "1.prems"(2) by (intro mult_le_mono1) simp
        finally show ?thesis by (simp add: mult.commute)
      qed
      then have "entryOk C maskVal"
        using "1.prems"(1) by (simp add: maskOk_def maskVal_def list_all_length)
      with nz have "c_blockInfo C (nat (maskVal AND 255)) \<noteq> None"
        by (simp add: entryOk_def)
      then obtain bufs where e: "emitQuad C dir d u v w h maskVal (st_bufs s) = Inr bufs"
        using emitQuad_total by blast
      have "maskOk C dir (st_mask \<lparr>st_mask = cleared, st_bufs = bufs\<rparr>)"
        using "1.prems"(1) by (simp add: maskOk_def cleared_def clearRegion_length clearRegion_all)
      from "1.IH"(2) [OF inr maskVal_def nz w_def h_def cleared_def e this "1.prems"(2)]
      show ?thesis
        by (simp add: rowLoop_emit [OF inr maskVal_def nz w_def h_def cleared_def] e)
    qed
  qed
qed

lemma foldE_total:
  assumes "\<And>x s. x \<in> set xs \<Longrightarrow> I s \<Longrightarrow> \<exists>s'. f x s = Inr s' \<and> I s'"
    and "I s"
  shows "\<exists>s'. foldE f xs s = Inr s' \<and> I s'"
  using assms
proof (induction xs arbitrary: s)
  case Nil
  then show ?case by simp
next
  case (Cons x xs)
  from Cons.prems(1) [of x s] Cons.prems(2) obtain s1 where s1: "f x s = Inr s1" "I s1"
    by auto
  from Cons.IH [of s1] Cons.prems(1) s1(2) obtain s' where "foldE f xs s1 = Inr s'" "I s'"
    by auto
  with s1 show ?case by simp
qed

lemma meshSlice_total:
  assumes "length (st_mask s) = uSize dir * vSize dir"
  shows "\<exists>s'. meshSlice C dir d s = Inr s' \<and> length (st_mask s') = uSize dir * vSize dir"
proof -
  have "\<exists>s'. foldE (\<lambda>v. rowLoop C dir d v 0) [0..<vSize dir]
           (s\<lparr>st_mask := buildMask C dir d (st_mask s)\<rparr>) = Inr s' \<and> maskOk C dir (st_mask s')"
  proof (rule foldE_total [where I = "\<lambda>s. maskOk C dir (st_mask s)"])
    show "maskOk C dir (st_mask (s\<lparr>st_mask := buildMask C dir d (st_mask s)\<rparr>))"
      using assms by (simp add: maskOk_def buildMask_length buildMask_all)
  next
    fix x and s :: MeshState
    assume "x \<in> set [0..<vSize dir]" and "maskOk C dir (st_mask s)"
    then show "\<exists>s'. rowLoop C dir d x 0 s = Inr s' \<and> maskOk C dir (st_mask s')"
      by (intro rowLoop_total) auto
  qed
  then show ?thesis
    by (auto simp add: meshSlice_def maskOk_def)
qed

lemma meshDir_total: "\<exists>bufs'. meshDir C dir bufs = Inr bufs'"
proof -
  have "\<exists>s'. foldE (meshSlice C dir) [0..<dSize dir]
           \<lparr>st_mask = replicate (uSize dir * vSize dir) 0, st_bufs = bufs\<rparr> = Inr s'
         \<and> length (st_mask s') = uSize dir * vSize dir"
    by (rule foldE_total [where I = "\<lambda>s. length (st_mask s) = uSize dir * vSize dir"])
      (auto intro: meshSlice_total)
  then show ?thesis
    by (auto simp add: meshDir_def)
qed

lemma meshChunk_total: "\<exists>om tm. meshChunk blocks cx cz nb bi light nl = Inr (om, tm)"
proof -
  define C where "C = \<lparr>c_blocks = blocks, c_cx = cx, c_cz = cz, c_neighborBlocks = nb,
               c_blockInfo = bi, c_light = light, c_neighborLights = nl\<rparr>"
  have "\<exists>s'. foldE (meshDir C) [0..<6] (createTemp, createTemp) = Inr s' \<and> True"
  proof (rule foldE_total [where I = "\<lambda>s. True"])
    fix x and s :: "TempArrays \<times> TempArrays"
    show "\<exists>s'. meshDir C x s = Inr s' \<and> True"
      using meshDir_total [of C x s] by simp
  qed simp
  then show ?thesis
    by (auto simp add: meshChunk_def C_def [symmetric] Let_def split: prod.splits)
qed


lemma wfTemp_toMeshData: "wfTemp t \<Longrightarrow> wfMesh (toMeshData t)"
  by (simp add: wfTemp_def wfMesh_def toMeshData_def vertexCountOf_def list_all_iff)

text \<open>
  Claim C9 (mesh-buffer well-formedness).  \<open>meshChunk\<close> always returns, and in both
  buffers it returns the parallel arrays agree with the vertex count \<open>V\<close> (the worker's
  \<open>positions.length / 3\<close>): 3V positions, 3V normals, 2V texture coordinates, V
  occlusion weights, V lights, (3/2)V indices, and every index is below \<open>V\<close>.
\<close>

theorem mesh_buffers_wellformed:
  "\<exists>om tm. meshChunk blocks cx cz nb bi light nl = Inr (om, tm) \<and> wfMesh om \<and> wfMesh tm"
proof -
  obtain om tm where r: "meshChunk blocks cx cz nb bi light nl = Inr (om, tm)"
    using meshChunk_total by blast
  have "quadClosed wfTemp \<lparr>c_blocks = blocks, c_cx = cx, c_cz = cz, c_neighborBlocks = nb,
               c_blockInfo = bi, c_light = light, c_neighborLights = nl\<rparr>"
    by (simp add: quadClosed_def wfTemp_pushQuad del: split_paired_All)
  from meshChunk_invariant [OF this wfTemp_createTemp r] r show ?thesis
    by (auto intro: wfTemp_toMeshData)
qed




subsection \<open>The greedy merge on a mask that is one full-width rectangle\<close>

lemma fold_update_nth:
  "j < length m \<Longrightarrow>
   fold (\<lambda>x m. case g x of None \<Rightarrow> m | Some y \<Rightarrow> m[base + x := y]) [0..<n] m ! j =
     (if base \<le> j \<and> j < base + n
      then (case g (j - base) of None \<Rightarrow> m ! j | Some y \<Rightarrow> y) else m ! j)"
proof (induction n)
  case 0
  then show ?case by auto
next
  case (Suc n)
  let ?m = "fold (\<lambda>x m. case g x of None \<Rightarrow> m | Some y \<Rightarrow> m[base + x := y]) [0..<n] m"
  have len: "length ?m = length m" by (rule fold_update_length)
  show ?case
  proof (cases "j = base + n")
    case True
    with Suc len show ?thesis by (simp split: option.splits)
  next
    case False
    with Suc len show ?thesis by (auto split: option.splits)
  qed
qed

lemma buildMask_nth:
  assumes "j < uSize dir * vSize dir" and "length msk = uSize dir * vSize dir"
  shows "buildMask C dir d msk ! j =
           (case maskEntry C dir d (j mod uSize dir) (j div uSize dir) of
              None \<Rightarrow> 0 | Some x \<Rightarrow> x)"
proof -
  define us where "us = uSize dir"
  define row where "row = (\<lambda>v m. fold (\<lambda>u m. case maskEntry C dir d u v of None \<Rightarrow> m
                              | Some x \<Rightarrow> m[v * us + u := x]) [0..<us] m)"
  define E where "E = (\<lambda>j. maskEntry C dir d (j mod us) (j div us))"
  define m0 :: "int list" where "m0 = replicate (length msk) 0"
  define R where "R = (\<lambda>k. fold row [0..<k] m0)"
  have rowlen: "length (row v m) = length m" for v m
    unfolding row_def by (rule fold_update_length)
  have Rlen: "length (R k) = length m0" for k
    unfolding R_def by (induction k) (simp_all add: rowlen)
  have RSuc: "R (Suc k) = row k (R k)" for k
    unfolding R_def by simp
  have j: "j < length m0"
    using assms by (simp add: m0_def)
  have step: "row k (R k) ! j =
        (if k * us \<le> j \<and> j < k * us + us
         then (case maskEntry C dir d (j - k * us) k of None \<Rightarrow> R k ! j | Some y \<Rightarrow> y)
         else R k ! j)" for k
    unfolding row_def
    using fold_update_nth [where j = j and m = "R k" and g = "\<lambda>u. maskEntry C dir d u k"
          and base = "k * us" and n = us] j Rlen [of k]
    by simp
  have rows: "R k ! j = (if j < k * us then (case E j of None \<Rightarrow> 0 | Some x \<Rightarrow> x) else 0)" for k
  proof (induction k)
    case 0
    show ?case using j by (simp add: R_def m0_def)
  next
    case (Suc k)
    show ?case
    proof (cases "k * us \<le> j \<and> j < k * us + us")
      case True
      then have dv: "j div us = k"
        by (intro div_nat_eqI) (simp_all add: mult.commute)
      have "j mod us = j - (j div us) * us"
        by (simp add: minus_div_mult_eq_mod)
      then have md: "j mod us = j - k * us"
        by (simp only: dv)
      have e: "E j = maskEntry C dir d (j - k * us) k"
        by (simp only: E_def dv md)
      have old: "R k ! j = 0"
        using True Suc by simp
      have lt: "j < Suc k * us" using True by simp
      have "R (Suc k) ! j = (case maskEntry C dir d (j - k * us) k of None \<Rightarrow> R k ! j | Some y \<Rightarrow> y)"
        unfolding RSuc step using True by simp
      then show ?thesis
        unfolding old e [symmetric] using lt by simp
    next
      case False
      then have "R (Suc k) ! j = R k ! j"
        unfolding RSuc step by auto
      moreover have "j < Suc k * us \<longleftrightarrow> j < k * us"
        using False by auto
      ultimately show ?thesis
        using Suc by simp
    qed
  qed
  have "buildMask C dir d msk = R (vSize dir)"
    unfolding buildMask_def R_def row_def us_def m0_def by (rule refl)
  then show ?thesis
    using rows [of "vSize dir"] assms(1) by (simp add: E_def us_def mult.commute)
qed


lemma widthLoop_full:
  "u + w \<le> us \<Longrightarrow> (\<forall>k. w \<le> k \<and> u + k < us \<longrightarrow> msk ! (v * us + u + k) = maskVal) \<Longrightarrow>
   widthLoop msk us v u w maskVal = us - u"
proof (induction msk us v u w maskVal rule: widthLoop.induct)
  case (1 msk us v u w maskVal)
  show ?case
  proof (cases "u + w < us")
    case True
    with "1.prems" have "msk ! (v * us + u + w) = maskVal" by simp
    moreover from True "1.prems" "1.IH" this
    have "widthLoop msk us v u (w + 1) maskVal = us - u" by simp
    ultimately show ?thesis
      using True by (subst widthLoop.simps) simp
  next
    case False
    with "1.prems" show ?thesis
      by (subst widthLoop.simps) simp
  qed
qed

lemma heightLoop_rect:
  "h \<le> hh \<Longrightarrow> v + hh \<le> vs \<Longrightarrow>
   (\<forall>h'. h \<le> h' \<and> h' < hh \<longrightarrow> rowMatches msk us v h' u w maskVal) \<Longrightarrow>
   (v + hh < vs \<longrightarrow> \<not> rowMatches msk us v hh u w maskVal) \<Longrightarrow>
   heightLoop msk us vs v u w h maskVal = hh"
proof (induction msk us vs v u w h maskVal rule: heightLoop.induct)
  case (1 msk us vs v u w h maskVal)
  show ?case
  proof (cases "h < hh")
    case True
    with "1.prems" have c: "v + h < vs \<and> rowMatches msk us v h u w maskVal" by simp
    moreover from True "1.prems" "1.IH" [OF c]
    have "heightLoop msk us vs v u w (h + 1) maskVal = hh" by simp
    ultimately show ?thesis
      by (subst heightLoop.simps) simp
  next
    case False
    with "1.prems" have "h = hh" by simp
    with "1.prems" show ?thesis
      by (subst heightLoop.simps) auto
  qed
qed

lemma fold_clear_nth:
  "j < length m \<Longrightarrow>
   fold (\<lambda>x m. m[f x := 0]) xs m ! j = (if j \<in> f ` set xs then 0 else (m ! j :: int))"
proof (induction xs arbitrary: m)
  case Nil
  then show ?case by simp
next
  case (Cons x xs)
  then show ?case
    by (cases "j = f x") auto
qed

lemma fold_clear_length: "length (fold (\<lambda>x m. m[f x := (0::int)]) xs m) = length m"
  by (induction xs arbitrary: m) simp_all

lemma clearRegion_nth:
  assumes "j < length msk"
  shows "clearRegion msk us v u w h ! j =
           (if \<exists>hh < h. \<exists>ww < w. j = (v + hh) * us + u + ww then 0 else msk ! j)"
proof -
  define row where "row = (\<lambda>hh m. fold (\<lambda>ww m. m[(v + hh) * us + u + ww := (0::int)]) [0..<w] m)"
  have rowlen: "length (row hh m) = length m" for hh m
    unfolding row_def by (rule fold_clear_length)
  have rownth: "j < length m \<Longrightarrow>
      row hh m ! j = (if \<exists>ww < w. j = (v + hh) * us + u + ww then 0 else m ! j)" for hh m
    unfolding row_def using fold_clear_nth [where f = "\<lambda>ww. (v + hh) * us + u + ww"]
    by (auto simp add: image_iff)
  have "j < length m \<Longrightarrow>
      fold row [0..<k] m ! j =
        (if \<exists>hh < k. \<exists>ww < w. j = (v + hh) * us + u + ww then 0 else m ! j)" for k m
  proof (induction k)
    case 0
    then show ?case by simp
  next
    case (Suc k)
    have len: "length (fold row [0..<k] m) = length m"
      by (induction k) (simp_all add: rowlen)
    have "fold row [0..<Suc k] m ! j = row k (fold row [0..<k] m) ! j"
      by simp
    also have "\<dots> = (if \<exists>ww < w. j = (v + k) * us + u + ww then 0 else fold row [0..<k] m ! j)"
      using rownth [of "fold row [0..<k] m" k] Suc.prems len by simp
    finally show ?case
      using Suc by (auto simp add: less_Suc_eq)
  qed
  from this [of msk h] assms show ?thesis
    unfolding clearRegion_def row_def by simp
qed

lemma rowLoop_zero:
  "(\<forall>k. u \<le> k \<and> k < uSize dir \<longrightarrow> st_mask s ! (v * uSize dir + k) = 0) \<Longrightarrow>
   rowLoop C dir d v u s = Inr s"
proof (induction C dir d v u s rule: rowLoop.induct)
  case (1 C dir d v u s)
  show ?case
  proof (cases "u < uSize dir")
    case True
    with "1.prems" have z: "st_mask s ! (v * uSize dir + u) = 0" by simp
    from "1.IH"(1) [OF True refl z] "1.prems" have "rowLoop C dir d v (u + 1) s = Inr s"
      by simp
    with True z show ?thesis
      by (simp add: rowLoop_skip)
  next
    case False
    then show ?thesis by (simp add: rowLoop_done)
  qed
qed

lemma foldE_same: "(\<And>x. x \<in> set xs \<Longrightarrow> f x s = Inr s) \<Longrightarrow> foldE f xs s = Inr s"
  by (induction xs) simp_all


lemma foldE_rows_zero:
  "foldE (\<lambda>v. rowLoop C dir d v 0) vs \<lparr>st_mask = replicate n 0, st_bufs = bufs\<rparr>
     = Inr \<lparr>st_mask = replicate n 0, st_bufs = bufs\<rparr>"
  if "\<And>v. v \<in> set vs \<Longrightarrow> v * uSize dir + uSize dir \<le> n"
proof (rule foldE_same)
  fix v
  assume "v \<in> set vs"
  from that [OF this] show "rowLoop C dir d v 0 \<lparr>st_mask = replicate n 0, st_bufs = bufs\<rparr>
      = Inr \<lparr>st_mask = replicate n 0, st_bufs = bufs\<rparr>"
    by (intro rowLoop_zero) simp
qed

lemma meshSlice_empty:
  assumes "\<forall>u < uSize dir. \<forall>v < vSize dir. maskEntry C dir d u v = None"
    and "length (st_mask s) = uSize dir * vSize dir"
  shows "meshSlice C dir d s
           = Inr \<lparr>st_mask = replicate (uSize dir * vSize dir) 0, st_bufs = st_bufs s\<rparr>"
proof -
  have "buildMask C dir d (st_mask s) = replicate (uSize dir * vSize dir) 0"
  proof (rule nth_equalityI)
    show "length (buildMask C dir d (st_mask s)) = length (replicate (uSize dir * vSize dir) (0::int))"
      by (simp add: buildMask_length assms(2))
  next
    fix j
    assume "j < length (buildMask C dir d (st_mask s))"
    then have j: "j < uSize dir * vSize dir"
      by (simp add: buildMask_length assms(2))
    then have "0 < uSize dir" by (cases "uSize dir") auto
    then have "j mod uSize dir < uSize dir" by simp
    moreover have "j div uSize dir < vSize dir"
      using j by (simp add: less_mult_imp_div_less mult.commute)
    ultimately have "maskEntry C dir d (j mod uSize dir) (j div uSize dir) = None"
      using assms(1) by simp
    with buildMask_nth [OF j assms(2), of C d] j
    show "buildMask C dir d (st_mask s) ! j = replicate (uSize dir * vSize dir) 0 ! j"
      by simp
  qed
  then have "s\<lparr>st_mask := buildMask C dir d (st_mask s)\<rparr>
      = \<lparr>st_mask = replicate (uSize dir * vSize dir) 0, st_bufs = st_bufs s\<rparr>"
    by simp
  moreover have "v * uSize dir + uSize dir \<le> uSize dir * vSize dir" if "v \<in> set [0..<vSize dir]" for v
  proof -
    from that have "Suc v \<le> vSize dir" by simp
    then have "Suc v * uSize dir \<le> vSize dir * uSize dir" by (rule mult_le_mono1)
    then show ?thesis by (simp add: mult.commute)
  qed
  ultimately show ?thesis
    unfolding meshSlice_def by (simp only: foldE_rows_zero)
qed

lemma meshSlice_rect:
  assumes entries: "\<forall>u < uSize dir. \<forall>v < vSize dir.
      maskEntry C dir d u v = (if v < hh then Some c else None)"
    and c: "c \<noteq> 0" and hh: "0 < hh" "hh \<le> vSize dir" and us: "0 < uSize dir"
    and len: "length (st_mask s) = uSize dir * vSize dir"
  shows "meshSlice C dir d s =
           (case emitQuad C dir d 0 0 (uSize dir) hh c (st_bufs s) of
              Inl e \<Rightarrow> Inl e
            | Inr bufs \<Rightarrow> Inr \<lparr>st_mask = replicate (uSize dir * vSize dir) 0, st_bufs = bufs\<rparr>)"
proof -
  define us where "us = uSize dir"
  define vs where "vs = vSize dir"
  define m0 where "m0 = buildMask C dir d (st_mask s)"
  define s0 where "s0 = s\<lparr>st_mask := m0\<rparr>"
  have m0len: "length m0 = us * vs"
    by (simp add: m0_def buildMask_length len us_def vs_def)
  have m0nth: "m0 ! j = (if j < us * hh then c else 0)" if "j < us * vs" for j
  proof -
    have "j mod us < us" using us by (simp add: us_def)
    moreover have "j div us < vs"
      using that by (simp add: less_mult_imp_div_less mult.commute)
    ultimately have "maskEntry C dir d (j mod us) (j div us) = (if j div us < hh then Some c else None)"
      using entries by (simp add: us_def vs_def)
    moreover have "j div us < hh \<longleftrightarrow> j < us * hh"
      using us by (simp add: us_def div_less_iff_less_mult mult.commute)
    ultimately show ?thesis
      using buildMask_nth [OF that [unfolded us_def vs_def] len, of C d]
      by (simp add: m0_def us_def)
  qed
  have vs0: "0 < vs" using hh by (simp add: vs_def)
  have first: "st_mask s0 ! (0 * uSize dir + 0) = c"
    using m0nth [of 0] us hh vs0 by (simp add: s0_def us_def)
  have w: "widthLoop (st_mask s0) (uSize dir) 0 0 1 c = us"
  proof -
    have "widthLoop m0 us 0 0 1 c = us - 0"
    proof (rule widthLoop_full)
      show "0 + 1 \<le> us" using us by (simp add: us_def)
      show "\<forall>k. 1 \<le> k \<and> 0 + k < us \<longrightarrow> m0 ! (0 * us + 0 + k) = c"
      proof (intro allI impI)
        fix k assume k: "1 \<le> k \<and> 0 + k < us"
        then have "k < us * hh" "k < us * vs"
          using hh vs0 by (auto intro: less_le_trans [where y = "us * 1"])
        with m0nth [of k] show "m0 ! (0 * us + 0 + k) = c" by simp
      qed
    qed
    then show ?thesis by (simp add: s0_def us_def)
  qed
  have rowsOk: "rowMatches m0 us 0 h' 0 us c" if "h' < hh" for h'
    unfolding rowMatches_def list_all_iff
  proof
    fix wu assume "wu \<in> set [0..<us]"
    then have wu: "wu < us" by simp
    have "h' * us + wu < h' * us + us" using wu by simp
    also have "\<dots> = Suc h' * us" by simp
    also have "\<dots> \<le> hh * us" using that by (intro mult_le_mono1) simp
    finally have a: "h' * us + wu < us * hh" by (simp add: mult.commute)
    also have "\<dots> \<le> us * vs" using hh by (simp add: vs_def)
    finally have "h' * us + wu < us * vs" .
    with m0nth [of "h' * us + wu"] a show "m0 ! ((0 + h') * us + 0 + wu) = c" by simp
  qed
  have rowStop: "\<not> rowMatches m0 us 0 hh 0 us c" if "hh < vs"
  proof -
    have "hh * us + 0 < hh * us + us" using us by (simp add: us_def)
    also have "\<dots> = Suc hh * us" by simp
    also have "\<dots> \<le> vs * us" using that by (intro mult_le_mono1) simp
    finally have "hh * us < us * vs" by (simp add: mult.commute)
    with m0nth [of "hh * us"] have "m0 ! (hh * us) = 0" by (simp add: mult.commute)
    with c have "m0 ! ((0 + hh) * us + 0 + 0) \<noteq> c" by simp
    moreover have "0 \<in> set [0..<us]" using us by (simp add: us_def)
    ultimately show ?thesis
      unfolding rowMatches_def list_all_iff by blast
  qed
  have h: "heightLoop (st_mask s0) (uSize dir) (vSize dir) 0 0 us 1 c = hh"
  proof -
    have "heightLoop m0 us vs 0 0 us 1 c = hh"
      by (rule heightLoop_rect) (use hh rowsOk rowStop in \<open>auto simp add: vs_def\<close>)
    then show ?thesis by (simp add: s0_def us_def vs_def)
  qed
  have cleared: "clearRegion (st_mask s0) (uSize dir) 0 0 us hh = replicate (us * vs) 0"
  proof (rule nth_equalityI)
    show "length (clearRegion (st_mask s0) (uSize dir) 0 0 us hh) = length (replicate (us * vs) (0::int))"
      by (simp add: clearRegion_length s0_def m0len)
  next
    fix j
    assume "j < length (clearRegion (st_mask s0) (uSize dir) 0 0 us hh)"
    then have j: "j < us * vs" by (simp add: clearRegion_length s0_def m0len)
    have "(\<exists>a < hh. \<exists>ww < us. j = (0 + a) * us + 0 + ww) \<or> m0 ! j = 0"
    proof (cases "j < us * hh")
      case True
      have "j div us < hh"
        using True us by (simp add: us_def div_less_iff_less_mult mult.commute)
      moreover have "j mod us < us" using us by (simp add: us_def)
      moreover have "j = (0 + j div us) * us + 0 + j mod us" by simp
      ultimately show ?thesis by blast
    next
      case False
      with m0nth [OF j] show ?thesis by simp
    qed
    with clearRegion_nth [of j m0 us 0 0 us hh] j m0len
    show "clearRegion (st_mask s0) (uSize dir) 0 0 us hh ! j = replicate (us * vs) 0 ! j"
      by (auto simp add: s0_def us_def)
  qed
  have row0: "rowLoop C dir d 0 0 s0 =
      (case emitQuad C dir d 0 0 us hh c (st_bufs s) of
         Inl e \<Rightarrow> Inl e
       | Inr bufs \<Rightarrow> Inr \<lparr>st_mask = replicate (us * vs) 0, st_bufs = bufs\<rparr>)"
  proof -
    have "rowLoop C dir d 0 0 s0 =
      (case emitQuad C dir d 0 0 us hh c (st_bufs s0) of
         Inl e \<Rightarrow> Inl e
       | Inr bufs \<Rightarrow> rowLoop C dir d 0 (0 + us) \<lparr>st_mask = replicate (us * vs) 0, st_bufs = bufs\<rparr>)"
      by (rule rowLoop_emit [OF us first [symmetric] c w [symmetric] h [symmetric] cleared [symmetric]])
    moreover have "rowLoop C dir d 0 (0 + us) t = Inr t" for t
      by (rule rowLoop_done) (simp add: us_def)
    ultimately show ?thesis by (simp add: s0_def cong: sum.case_cong)
  qed
  have rest: "foldE (\<lambda>v. rowLoop C dir d v 0) [Suc 0..<vs] \<lparr>st_mask = replicate (us * vs) 0, st_bufs = bufs\<rparr>
      = Inr \<lparr>st_mask = replicate (us * vs) 0, st_bufs = bufs\<rparr>" for bufs
  proof (rule foldE_rows_zero)
    fix v assume "v \<in> set [Suc 0..<vs]"
    then have "Suc v \<le> vs" by simp
    then have "Suc v * us \<le> vs * us" by (rule mult_le_mono1)
    then show "v * uSize dir + uSize dir \<le> us * vs" by (simp add: mult.commute us_def)
  qed
  have split: "[0..<vs] = 0 # [Suc 0..<vs]"
    using vs0 by (simp add: upt_conv_Cons)
  have "meshSlice C dir d s = foldE (\<lambda>v. rowLoop C dir d v 0) (0 # [Suc 0..<vs]) s0"
    unfolding meshSlice_def s0_def m0_def vs_def [symmetric] split ..
  also have "\<dots> = (case emitQuad C dir d 0 0 us hh c (st_bufs s) of
              Inl e \<Rightarrow> Inl e
            | Inr bufs \<Rightarrow> Inr \<lparr>st_mask = replicate (us * vs) 0, st_bufs = bufs\<rparr>)"
    by (simp add: row0 rest split: sum.splits)
  finally show ?thesis unfolding us_def vs_def .
qed


subsection \<open>Counting quads\<close>

definition opaqueQuads :: "nat \<Rightarrow> TempArrays \<times> TempArrays \<Rightarrow> bool" where
  "opaqueQuads n bufs \<longleftrightarrow>
     vertexCount (fst bufs) = 4 * n \<and> length (positions (fst bufs)) = 12 * n \<and>
     length (indices (fst bufs)) = 6 * n \<and> snd bufs = createTemp"

lemma pushQuad_counts:
  "vertexCount (pushQuad t v0 v1 v2 v3 n uv ao fl) = vertexCount t + 4 \<and>
   length (positions (pushQuad t v0 v1 v2 v3 n uv ao fl)) = length (positions t) + 12 \<and>
   length (indices (pushQuad t v0 v1 v2 v3 n uv ao fl)) = length (indices t) + 6"
  by (cases v0; cases v1; cases v2; cases v3; cases n; cases uv; cases ao)
    (simp add: pushQuad_def Let_def)

lemma emitQuad_opaque:
  assumes "c_blockInfo C (nat (c AND 255)) = Some info" and "\<not> transparent info"
    and "opaqueQuads n bufs"
  shows "\<exists>bufs'. emitQuad C dir d u v w h c bufs = Inr bufs' \<and> opaqueQuads (Suc n) bufs'"
proof -
  from emitQuad_Some [OF assms(1), of dir d u v w h bufs] assms(2)
  obtain v0 v1 v2 v3 uv x y z fl where
    "emitQuad C dir d u v w h c bufs =
       Inr (pushQuad (fst bufs) v0 v1 v2 v3 (DIRECTION_NORMALS ! dir) uv
              (computeFaceAO x y z dir (c_blocks C) (c_neighborBlocks C) (c_blockInfo C)) fl,
            snd bufs)"
    by auto
  with assms(3) show ?thesis
    by (simp add: opaqueQuads_def pushQuad_counts)
qed

lemma foldE_append:
  "foldE f (xs @ ys) s = (case foldE f xs s of Inl e \<Rightarrow> Inl e | Inr s' \<Rightarrow> foldE f ys s')"
  by (induction xs arbitrary: s) (simp_all split: sum.splits)

text \<open>
  A direction in which exactly one slice \<open>d0\<close> shows faces, and these fill the first
  \<open>hh\<close> rows of the slice with one mask value: the whole direction amounts to emitting
  one quad, of the full width and \<open>hh\<close> rows, at the origin of that slice.
\<close>

lemma meshDir_one_face:
  assumes entries: "\<forall>d < dSize dir. \<forall>u < uSize dir. \<forall>v < vSize dir.
      maskEntry C dir d u v = (if d = d0 \<and> v < hh then Some c else None)"
    and d0: "d0 < dSize dir" and c: "c \<noteq> 0" and hh: "0 < hh" "hh \<le> vSize dir"
    and us: "0 < uSize dir"
  shows "meshDir C dir bufs = emitQuad C dir d0 0 0 (uSize dir) hh c bufs"
proof -
  define z where "z = replicate (uSize dir * vSize dir) (0::int)"
  have empty: "meshSlice C dir d \<lparr>st_mask = z, st_bufs = b\<rparr> = Inr \<lparr>st_mask = z, st_bufs = b\<rparr>"
    if "d < dSize dir" "d \<noteq> d0" for d b
    using meshSlice_empty [of dir C d "\<lparr>st_mask = z, st_bufs = b\<rparr>"] entries that
    by (simp add: z_def)
  have face: "meshSlice C dir d0 \<lparr>st_mask = z, st_bufs = bufs\<rparr> =
      (case emitQuad C dir d0 0 0 (uSize dir) hh c bufs of
         Inl e \<Rightarrow> Inl e | Inr b \<Rightarrow> Inr \<lparr>st_mask = z, st_bufs = b\<rparr>)"
    using meshSlice_rect [of dir C d0 hh c "\<lparr>st_mask = z, st_bufs = bufs\<rparr>"] entries d0 c hh us
    unfolding z_def by simp
  have split: "[0..<dSize dir] = [0..<d0] @ d0 # [Suc d0..<dSize dir]"
    using d0 by (metis le0 upt_add_eq_append upt_conv_Cons le_add_diff_inverse less_imp_le)
  have before: "foldE (meshSlice C dir) [0..<d0] \<lparr>st_mask = z, st_bufs = bufs\<rparr>
      = Inr \<lparr>st_mask = z, st_bufs = bufs\<rparr>"
    by (rule foldE_same) (use d0 in \<open>auto intro: empty\<close>)
  have after: "foldE (meshSlice C dir) [Suc d0..<dSize dir] \<lparr>st_mask = z, st_bufs = b\<rparr>
      = Inr \<lparr>st_mask = z, st_bufs = b\<rparr>" for b
    by (rule foldE_same) (auto intro: empty)
  have "foldE (meshSlice C dir) [0..<dSize dir] \<lparr>st_mask = z, st_bufs = bufs\<rparr>
      = (case emitQuad C dir d0 0 0 (uSize dir) hh c bufs of
           Inl e \<Rightarrow> Inl e | Inr b \<Rightarrow> Inr \<lparr>st_mask = z, st_bufs = b\<rparr>)"
    unfolding split foldE_append before by (simp add: face after split: sum.splits)
  then show ?thesis
    by (simp add: meshDir_def z_def split: sum.splits)
qed

subsection \<open>The flat-world scenario\<close>

text \<open>
  The chunk of the end-to-end scenario: block 1, opaque, for \<open>y\<close> in 0..9 and air above;
  the four lateral neighbours absent, for blocks and for light; and one light value
  \<open>L\<close> over the layer \<open>y = 10\<close> (as the light engine produces, and as the all-zero array
  the worker supplies when it is sent none).
\<close>

definition flatWorld :: "MeshCtx \<Rightarrow> nat option \<Rightarrow> bool" where
  "flatWorld C L \<longleftrightarrow>
     (\<forall>x y z. 0 \<le> x \<and> x < 16 \<and> 0 \<le> y \<and> y < 256 \<and> 0 \<le> z \<and> z < 16 \<longrightarrow>
        ta_get (c_blocks C) (blockIndex x y z) = Some (if y < 10 then 1 else 0)) \<and>
     (\<exists>info. c_blockInfo C 1 = Some info \<and> \<not> transparent info) \<and>
     c_neighborBlocks C (- 1, 0) = None \<and> c_neighborBlocks C (1, 0) = None \<and>
     c_neighborBlocks C (0, - 1) = None \<and> c_neighborBlocks C (0, 1) = None \<and>
     c_neighborLights C (- 1, 0) = None \<and> c_neighborLights C (1, 0) = None \<and>
     c_neighborLights C (0, - 1) = None \<and> c_neighborLights C (0, 1) = None \<and>
     (\<forall>x z. 0 \<le> x \<and> x < 16 \<and> 0 \<le> z \<and> z < 16 \<longrightarrow>
        ta_get (c_light C) (blockIndex x 10 z) = L)"

text \<open>
  The scenario as concrete data: layers y = 0..9 hold block 1 (opaque), everything above
  is air; the light array is what the light engine gives for it (sunlight 15 in the air,
  0 inside the blocks); there are no neighbour chunks.
\<close>

definition scenarioBlocks :: "byte list" where
  "scenarioBlocks = map (\<lambda>i. if i mod 256 < 10 then 1 else 0) [0..<CHUNK_VOLUME]"

definition scenarioLight :: "byte list" where
  "scenarioLight = map (\<lambda>i. if i mod 256 < 10 then 0 else 240) [0..<CHUNK_VOLUME]"

definition scenarioCtx :: MeshCtx where
  "scenarioCtx = \<lparr>c_blocks = scenarioBlocks, c_cx = 0, c_cz = 0, c_neighborBlocks = Map.empty,
     c_blockInfo = demoTable, c_light = scenarioLight, c_neighborLights = Map.empty\<rparr>"

text \<open>The vertex and triangle counts of the opaque buffer of a result of \<open>meshChunk\<close>.\<close>

definition opaqueCounts :: "js_error + MeshData \<times> MeshData \<Rightarrow> (nat \<times> nat) option" where
  "opaqueCounts r = (case r of Inl e \<Rightarrow> None
     | Inr (om, tm) \<Rightarrow> Some (vertexCountOf om, length (md_indices om) div 3))"

lemma flat_getBlock:
  "flatWorld C L \<Longrightarrow> 0 \<le> x \<Longrightarrow> x < 16 \<Longrightarrow> 0 \<le> y \<Longrightarrow> y < 256 \<Longrightarrow> 0 \<le> z \<Longrightarrow> z < 16 \<Longrightarrow>
   getBlock (c_blocks C) x y z = Some (if y < 10 then 1 else 0)"
  by (simp add: flatWorld_def getBlock_def CHUNK_SIZE_def CHUNK_HEIGHT_def)

lemma flat_neighbor_inside:
  "flatWorld C L \<Longrightarrow> 0 \<le> x \<Longrightarrow> x < 16 \<Longrightarrow> 0 \<le> z \<Longrightarrow> z < 16 \<Longrightarrow>
   getBlockOrNeighbor (c_blocks C) x y z (c_neighborBlocks C)
     = Some (if 0 \<le> y \<and> y < 10 then 1 else 0)"
  by (simp add: flatWorld_def getBlockOrNeighbor_def wrapAxis_def CHUNK_SIZE_def CHUNK_HEIGHT_def)

lemma flat_neighbor_outside:
  "flatWorld C L \<Longrightarrow>
   (x = - 1 \<or> x = 16) \<and> 0 \<le> z \<and> z < 16 \<or> (z = - 1 \<or> z = 16) \<and> 0 \<le> x \<and> x < 16 \<Longrightarrow>
   getBlockOrNeighbor (c_blocks C) x y z (c_neighborBlocks C) = Some 0"
  by (auto simp add: flatWorld_def getBlockOrNeighbor_def wrapAxis_def CHUNK_SIZE_def
      CHUNK_HEIGHT_def)

lemma flat_light_top:
  "flatWorld C L \<Longrightarrow> 0 \<le> x \<Longrightarrow> x < 16 \<Longrightarrow> 0 \<le> z \<Longrightarrow> z < 16 \<Longrightarrow>
   getLightOrNeighbor (c_light C) x 10 z (c_neighborLights C) = L"
  by (simp add: flatWorld_def getLightOrNeighbor_def wrapAxis_def CHUNK_SIZE_def CHUNK_HEIGHT_def)

lemma flat_light_below:
  "getLightOrNeighbor light x (- 1) z nl = Some 0"
  by (simp add: getLightOrNeighbor_def CHUNK_HEIGHT_def)

lemma flat_light_outside:
  "flatWorld C L \<Longrightarrow> 0 \<le> y \<Longrightarrow> y < 256 \<Longrightarrow>
   (x = - 1 \<or> x = 16) \<and> 0 \<le> z \<and> z < 16 \<or> (z = - 1 \<or> z = 16) \<and> 0 \<le> x \<and> x < 16 \<Longrightarrow>
   getLightOrNeighbor (c_light C) x y z (c_neighborLights C) = Some 240"
  by (auto simp add: flatWorld_def getLightOrNeighbor_def wrapAxis_def CHUNK_SIZE_def
      CHUNK_HEIGHT_def)

lemma maskEntry_flat:
  assumes pos: "place3 dir (int d) (int u) (int v) = [x, y, z]"
    and nrm: "DIRECTION_NORMALS ! dir = (n0, n1, n2)"
    and blk: "getBlock (c_blocks C) x y z = Some b" "b = 0 \<or> b = 1"
    and info: "c_blockInfo C 1 = Some info" "\<not> transparent info"
    and nbr: "getBlockOrNeighbor (c_blocks C) (x + n0) (y + n1) (z + n2) (c_neighborBlocks C) = Some n"
      "n = 0 \<or> n = 1"
    and lgt: "getLightOrNeighbor (c_light C) (x + n0) (y + n1) (z + n2) (c_neighborLights C) = l"
  shows "maskEntry C dir d u v =
           (if b = 1 \<and> n = 0
            then Some (1 OR push_bit 8 (case l of None \<Rightarrow> 0 | Some a \<Rightarrow> int a)) else None)"
proof (cases "b = 0")
  case True
  then show ?thesis
    by (simp add: maskEntry_def pos blk)
next
  case False
  with blk have b: "b = 1" by simp
  have i': "c_blockInfo C (Suc 0) = Some info"
    using info by simp
  show ?thesis
  proof (cases "n = 0")
    case True
    then show ?thesis
      by (simp add: maskEntry_def pos nrm blk(1) b i' nbr(1) lgt faceVisible_def Let_def)
  next
    case False
    with nbr have "n = 1" by simp
    then show ?thesis
      by (simp add: maskEntry_def pos nrm blk(1) b i' info nbr(1) lgt faceVisible_def Let_def)
  qed
qed

lemma flat_up:
  assumes "flatWorld C L" and "d < 256" and "u < 16" and "v < 16"
  shows "maskEntry C DIR_UP d u v =
           (if d = 9 \<and> v < 16
            then Some (1 OR push_bit 8 (case L of None \<Rightarrow> 0 | Some l \<Rightarrow> int l)) else None)"
proof -
  from assms(1) obtain info where i: "c_blockInfo C 1 = Some info" "\<not> transparent info"
    by (auto simp add: flatWorld_def)
  have p: "place3 DIR_UP (int d) (int u) (int v) = [int u, int d, int v]"
    by (simp add: place3_def axis_defs dir_defs)
  have n: "DIRECTION_NORMALS ! DIR_UP = (0, 1, 0)"
    by (simp add: DIRECTION_NORMALS_def dir_defs)
  have g: "getBlock (c_blocks C) (int u) (int d) (int v) = Some (if d < 10 then 1 else 0)"
    using flat_getBlock [OF assms(1), of "int u" "int d" "int v"] assms(2-) by simp
  have nb: "getBlockOrNeighbor (c_blocks C) (int u + 0) (int d + 1) (int v + 0) (c_neighborBlocks C)
      = Some (if d < 9 then 1 else 0)"
    using flat_neighbor_inside [OF assms(1), of "int u" "int v" "int d + 1"] assms(2-) by simp
  have m: "maskEntry C DIR_UP d u v =
      (if (if d < 10 then 1 else 0) = (1::nat) \<and> (if d < 9 then 1 else 0) = (0::nat)
       then Some (1 OR push_bit 8
          (case getLightOrNeighbor (c_light C) (int u + 0) (int d + 1) (int v + 0) (c_neighborLights C)
           of None \<Rightarrow> 0 | Some a \<Rightarrow> int a)) else None)"
    by (rule maskEntry_flat [OF p n g _ i nb _ refl]) simp_all
  show ?thesis
  proof (cases "d = 9")
    case True
    have "getLightOrNeighbor (c_light C) (int u + 0) (int d + 1) (int v + 0) (c_neighborLights C) = L"
      using flat_light_top [OF assms(1), of "int u" "int v"] assms(2-) True by simp
    with True assms(4) show ?thesis
      unfolding m by simp
  next
    case False
    then show ?thesis
      unfolding m by auto
  qed
qed


lemma flat_down:
  assumes "flatWorld C L" and "d < 256" and "u < 16" and "v < 16"
  shows "maskEntry C DIR_DOWN d u v = (if d = 0 \<and> v < 16 then Some 1 else None)"
proof -
  from assms(1) obtain info where i: "c_blockInfo C 1 = Some info" "\<not> transparent info"
    by (auto simp add: flatWorld_def)
  have p: "place3 DIR_DOWN (int d) (int u) (int v) = [int u, int d, int v]"
    by (simp add: place3_def axis_defs dir_defs)
  have n: "DIRECTION_NORMALS ! DIR_DOWN = (0, - 1, 0)"
    by (simp add: DIRECTION_NORMALS_def dir_defs)
  have g: "getBlock (c_blocks C) (int u) (int d) (int v) = Some (if d < 10 then 1 else 0)"
    using flat_getBlock [OF assms(1), of "int u" "int d" "int v"] assms(2-) by simp
  have nb: "getBlockOrNeighbor (c_blocks C) (int u + 0) (int d + - 1) (int v + 0) (c_neighborBlocks C)
      = Some (if 1 \<le> d \<and> d < 11 then 1 else 0)"
    using flat_neighbor_inside [OF assms(1), of "int u" "int v" "int d + - 1"] assms(2-)
    by (simp add: int_ops)
  have m: "maskEntry C DIR_DOWN d u v =
      (if (if d < 10 then 1 else 0) = (1::nat) \<and> (if 1 \<le> d \<and> d < 11 then 1 else 0) = (0::nat)
       then Some (1 OR push_bit 8
          (case getLightOrNeighbor (c_light C) (int u + 0) (int d + - 1) (int v + 0) (c_neighborLights C)
           of None \<Rightarrow> 0 | Some a \<Rightarrow> int a)) else None)"
    by (rule maskEntry_flat [OF p n g _ i nb _ refl]) simp_all
  show ?thesis
  proof (cases "d = 0")
    case True
    with assms(4) show ?thesis
      unfolding m by (simp add: flat_light_below)
  next
    case False
    then show ?thesis
      unfolding m by auto
  qed
qed

lemma flat_north:
  assumes "flatWorld C L" and "d < 16" and "u < 16" and "v < 256"
  shows "maskEntry C DIR_NORTH d u v = (if d = 0 \<and> v < 10 then Some 61441 else None)"
proof -
  from assms(1) obtain info where i: "c_blockInfo C 1 = Some info" "\<not> transparent info"
    by (auto simp add: flatWorld_def)
  have p: "place3 DIR_NORTH (int d) (int u) (int v) = [int u, int v, int d]"
    by (simp add: place3_def axis_defs dir_defs)
  have n: "DIRECTION_NORMALS ! DIR_NORTH = (0, 0, - 1)"
    by (simp add: DIRECTION_NORMALS_def dir_defs)
  have g: "getBlock (c_blocks C) (int u) (int v) (int d) = Some (if v < 10 then 1 else 0)"
    using flat_getBlock [OF assms(1), of "int u" "int v" "int d"] assms(2-) by simp
  have nb: "getBlockOrNeighbor (c_blocks C) (int u + 0) (int v + 0) (int d + - 1) (c_neighborBlocks C)
      = Some (if d \<noteq> 0 \<and> v < 10 then 1 else 0)"
  proof (cases "d = 0")
    case True
    with flat_neighbor_outside [OF assms(1), of "int u + 0" "int d + - 1" "int v + 0"] assms(2-)
    show ?thesis by simp
  next
    case False
    with flat_neighbor_inside [OF assms(1), of "int u + 0" "int d + - 1" "int v + 0"] assms(2-)
    show ?thesis by (simp add: int_ops)
  qed
  have m: "maskEntry C DIR_NORTH d u v =
      (if (if v < 10 then 1 else 0) = (1::nat) \<and> (if d \<noteq> 0 \<and> v < 10 then 1 else 0) = (0::nat)
       then Some (1 OR push_bit 8
          (case getLightOrNeighbor (c_light C) (int u + 0) (int v + 0) (int d + - 1) (c_neighborLights C)
           of None \<Rightarrow> 0 | Some a \<Rightarrow> int a)) else None)"
    by (rule maskEntry_flat [OF p n g _ i nb _ refl]) simp_all
  show ?thesis
  proof (cases "d = 0 \<and> v < 10")
    case True
    with flat_light_outside [OF assms(1), of "int v + 0" "int u + 0" "int d + - 1"] assms(2-)
    have "getLightOrNeighbor (c_light C) (int u + 0) (int v + 0) (int d + - 1) (c_neighborLights C)
        = Some 240"
      by simp
    with True show ?thesis
      unfolding m by simp
  next
    case False
    then show ?thesis
      unfolding m by auto
  qed
qed

lemma flat_south:
  assumes "flatWorld C L" and "d < 16" and "u < 16" and "v < 256"
  shows "maskEntry C DIR_SOUTH d u v = (if d = 15 \<and> v < 10 then Some 61441 else None)"
proof -
  from assms(1) obtain info where i: "c_blockInfo C 1 = Some info" "\<not> transparent info"
    by (auto simp add: flatWorld_def)
  have p: "place3 DIR_SOUTH (int d) (int u) (int v) = [int u, int v, int d]"
    by (simp add: place3_def axis_defs dir_defs)
  have n: "DIRECTION_NORMALS ! DIR_SOUTH = (0, 0, 1)"
    by (simp add: DIRECTION_NORMALS_def dir_defs)
  have g: "getBlock (c_blocks C) (int u) (int v) (int d) = Some (if v < 10 then 1 else 0)"
    using flat_getBlock [OF assms(1), of "int u" "int v" "int d"] assms(2-) by simp
  have nb: "getBlockOrNeighbor (c_blocks C) (int u + 0) (int v + 0) (int d + 1) (c_neighborBlocks C)
      = Some (if d \<noteq> 15 \<and> v < 10 then 1 else 0)"
  proof (cases "d = 15")
    case True
    with flat_neighbor_outside [OF assms(1), of "int u + 0" "int d + 1" "int v + 0"] assms(2-)
    show ?thesis by simp
  next
    case False
    with flat_neighbor_inside [OF assms(1), of "int u + 0" "int d + 1" "int v + 0"] assms(2-)
    show ?thesis by (simp add: int_ops)
  qed
  have m: "maskEntry C DIR_SOUTH d u v =
      (if (if v < 10 then 1 else 0) = (1::nat) \<and> (if d \<noteq> 15 \<and> v < 10 then 1 else 0) = (0::nat)
       then Some (1 OR push_bit 8
          (case getLightOrNeighbor (c_light C) (int u + 0) (int v + 0) (int d + 1) (c_neighborLights C)
           of None \<Rightarrow> 0 | Some a \<Rightarrow> int a)) else None)"
    by (rule maskEntry_flat [OF p n g _ i nb _ refl]) simp_all
  show ?thesis
  proof (cases "d = 15 \<and> v < 10")
    case True
    with flat_light_outside [OF assms(1), of "int v + 0" "int u + 0" "int d + 1"] assms(2-)
    have "getLightOrNeighbor (c_light C) (int u + 0) (int v + 0) (int d + 1) (c_neighborLights C)
        = Some 240"
      by simp
    with True show ?thesis
      unfolding m by simp
  next
    case False
    then show ?thesis
      unfolding m by auto
  qed
qed

lemma flat_east:
  assumes "flatWorld C L" and "d < 16" and "u < 16" and "v < 256"
  shows "maskEntry C DIR_EAST d u v = (if d = 15 \<and> v < 10 then Some 61441 else None)"
proof -
  from assms(1) obtain info where i: "c_blockInfo C 1 = Some info" "\<not> transparent info"
    by (auto simp add: flatWorld_def)
  have p: "place3 DIR_EAST (int d) (int u) (int v) = [int d, int v, int u]"
    by (simp add: place3_def axis_defs dir_defs)
  have n: "DIRECTION_NORMALS ! DIR_EAST = (1, 0, 0)"
    by (simp add: DIRECTION_NORMALS_def dir_defs)
  have g: "getBlock (c_blocks C) (int d) (int v) (int u) = Some (if v < 10 then 1 else 0)"
    using flat_getBlock [OF assms(1), of "int d" "int v" "int u"] assms(2-) by simp
  have nb: "getBlockOrNeighbor (c_blocks C) (int d + 1) (int v + 0) (int u + 0) (c_neighborBlocks C)
      = Some (if d \<noteq> 15 \<and> v < 10 then 1 else 0)"
  proof (cases "d = 15")
    case True
    with flat_neighbor_outside [OF assms(1), of "int d + 1" "int u + 0" "int v + 0"] assms(2-)
    show ?thesis by simp
  next
    case False
    with flat_neighbor_inside [OF assms(1), of "int d + 1" "int u + 0" "int v + 0"] assms(2-)
    show ?thesis by (simp add: int_ops)
  qed
  have m: "maskEntry C DIR_EAST d u v =
      (if (if v < 10 then 1 else 0) = (1::nat) \<and> (if d \<noteq> 15 \<and> v < 10 then 1 else 0) = (0::nat)
       then Some (1 OR push_bit 8
          (case getLightOrNeighbor (c_light C) (int d + 1) (int v + 0) (int u + 0) (c_neighborLights C)
           of None \<Rightarrow> 0 | Some a \<Rightarrow> int a)) else None)"
    by (rule maskEntry_flat [OF p n g _ i nb _ refl]) simp_all
  show ?thesis
  proof (cases "d = 15 \<and> v < 10")
    case True
    with flat_light_outside [OF assms(1), of "int v + 0" "int d + 1" "int u + 0"] assms(2-)
    have "getLightOrNeighbor (c_light C) (int d + 1) (int v + 0) (int u + 0) (c_neighborLights C)
        = Some 240"
      by simp
    with True show ?thesis
      unfolding m by simp
  next
    case False
    then show ?thesis
      unfolding m by auto
  qed
qed

lemma flat_west:
  assumes "flatWorld C L" and "d < 16" and "u < 16" and "v < 256"
  shows "maskEntry C DIR_WEST d u v = (if d = 0 \<and> v < 10 then Some 61441 else None)"
proof -
  from assms(1) obtain info where i: "c_blockInfo C 1 = Some info" "\<not> transparent info"
    by (auto simp add: flatWorld_def)
  have p: "place3 DIR_WEST (int d) (int u) (int v) = [int d, int v, int u]"
    by (simp add: place3_def axis_defs dir_defs)
  have n: "DIRECTION_NORMALS ! DIR_WEST = (- 1, 0, 0)"
    by (simp add: DIRECTION_NORMALS_def dir_defs)
  have g: "getBlock (c_blocks C) (int d) (int v) (int u) = Some (if v < 10 then 1 else 0)"
    using flat_getBlock [OF assms(1), of "int d" "int v" "int u"] assms(2-) by simp
  have nb: "getBlockOrNeighbor (c_blocks C) (int d + - 1) (int v + 0) (int u + 0) (c_neighborBlocks C)
      = Some (if d \<noteq> 0 \<and> v < 10 then 1 else 0)"
  proof (cases "d = 0")
    case True
    with flat_neighbor_outside [OF assms(1), of "int d + - 1" "int u + 0" "int v + 0"] assms(2-)
    show ?thesis by simp
  next
    case False
    with flat_neighbor_inside [OF assms(1), of "int d + - 1" "int u + 0" "int v + 0"] assms(2-)
    show ?thesis by (simp add: int_ops)
  qed
  have m: "maskEntry C DIR_WEST d u v =
      (if (if v < 10 then 1 else 0) = (1::nat) \<and> (if d \<noteq> 0 \<and> v < 10 then 1 else 0) = (0::nat)
       then Some (1 OR push_bit 8
          (case getLightOrNeighbor (c_light C) (int d + - 1) (int v + 0) (int u + 0) (c_neighborLights C)
           of None \<Rightarrow> 0 | Some a \<Rightarrow> int a)) else None)"
    by (rule maskEntry_flat [OF p n g _ i nb _ refl]) simp_all
  show ?thesis
  proof (cases "d = 0 \<and> v < 10")
    case True
    with flat_light_outside [OF assms(1), of "int v + 0" "int d + - 1" "int u + 0"] assms(2-)
    have "getLightOrNeighbor (c_light C) (int d + - 1) (int v + 0) (int u + 0) (c_neighborLights C)
        = Some 240"
      by simp
    with True show ?thesis
      unfolding m by simp
  next
    case False
    then show ?thesis
      unfolding m by auto
  qed
qed


text \<open>The mask value of the top faces: block 1 with the light of the layer above.\<close>

definition topMask :: "nat option \<Rightarrow> int" where
  "topMask L = 1 OR push_bit 8 (case L of None \<Rightarrow> 0 | Some l \<Rightarrow> int l)"

text \<open>
  The six merged rectangles of the scenario, each as (direction, slice, rows, mask
  value); all start at the origin of their slice and span the full width 16.
\<close>

definition flatQuads :: "nat option \<Rightarrow> (nat \<times> nat \<times> nat \<times> int) list" where
  "flatQuads L =
     [(DIR_UP, 9, 16, topMask L), (DIR_DOWN, 0, 16, 1),
      (DIR_NORTH, 0, 10, 61441), (DIR_SOUTH, 15, 10, 61441),
      (DIR_EAST, 15, 10, 61441), (DIR_WEST, 0, 10, 61441)]"

definition emitAll ::
  "MeshCtx \<Rightarrow> (nat \<times> nat \<times> nat \<times> int) list \<Rightarrow> TempArrays \<times> TempArrays
     \<Rightarrow> js_error + TempArrays \<times> TempArrays" where
  "emitAll C qs bufs = foldE (\<lambda>(dir, d, h, c). emitQuad C dir d 0 0 16 h c) qs bufs"

lemma topMask_nonzero: "topMask L \<noteq> 0"
  by (simp add: topMask_def or_eq_0_iff)

lemma topMask_block: "nat (topMask L AND 255) = 1"
  using unpack_blockId [of 1 "case L of None \<Rightarrow> 0 | Some l \<Rightarrow> int l"] by (simp add: topMask_def)

lemma flat_meshDir_up:
  assumes f: "flatWorld C L"
  shows "meshDir C DIR_UP bufs = emitQuad C DIR_UP 9 0 0 16 16 (topMask L) bufs"
proof -
  have sz: "dSize DIR_UP = 256" "uSize DIR_UP = 16" "vSize DIR_UP = 16"
    by (simp_all add: axis_defs dir_defs CHUNK_SIZE_def CHUNK_HEIGHT_def)
  have en: "\<forall>d < dSize DIR_UP. \<forall>u < uSize DIR_UP. \<forall>v < vSize DIR_UP.
      maskEntry C DIR_UP d u v = (if d = 9 \<and> v < 16 then Some (topMask L) else None)"
    unfolding sz using flat_up [OF f] by (simp add: topMask_def)
  show ?thesis
    using meshDir_one_face [OF en, of bufs] by (simp add: sz topMask_nonzero)
qed

lemma flat_meshDir_down:
  assumes f: "flatWorld C L"
  shows "meshDir C DIR_DOWN bufs = emitQuad C DIR_DOWN 0 0 0 16 16 (1) bufs"
proof -
  have sz: "dSize DIR_DOWN = 256" "uSize DIR_DOWN = 16" "vSize DIR_DOWN = 16"
    by (simp_all add: axis_defs dir_defs CHUNK_SIZE_def CHUNK_HEIGHT_def)
  have en: "\<forall>d < dSize DIR_DOWN. \<forall>u < uSize DIR_DOWN. \<forall>v < vSize DIR_DOWN.
      maskEntry C DIR_DOWN d u v = (if d = 0 \<and> v < 16 then Some (1) else None)"
    unfolding sz using flat_down [OF f] by (simp add: sz)
  show ?thesis
    using meshDir_one_face [OF en, of bufs] by (simp add: sz topMask_nonzero)
qed

lemma flat_meshDir_north:
  assumes f: "flatWorld C L"
  shows "meshDir C DIR_NORTH bufs = emitQuad C DIR_NORTH 0 0 0 16 10 (61441) bufs"
proof -
  have sz: "dSize DIR_NORTH = 16" "uSize DIR_NORTH = 16" "vSize DIR_NORTH = 256"
    by (simp_all add: axis_defs dir_defs CHUNK_SIZE_def CHUNK_HEIGHT_def)
  have en: "\<forall>d < dSize DIR_NORTH. \<forall>u < uSize DIR_NORTH. \<forall>v < vSize DIR_NORTH.
      maskEntry C DIR_NORTH d u v = (if d = 0 \<and> v < 10 then Some (61441) else None)"
    unfolding sz using flat_north [OF f] by (simp add: sz)
  show ?thesis
    using meshDir_one_face [OF en, of bufs] by (simp add: sz topMask_nonzero)
qed

lemma flat_meshDir_south:
  assumes f: "flatWorld C L"
  shows "meshDir C DIR_SOUTH bufs = emitQuad C DIR_SOUTH 15 0 0 16 10 (61441) bufs"
proof -
  have sz: "dSize DIR_SOUTH = 16" "uSize DIR_SOUTH = 16" "vSize DIR_SOUTH = 256"
    by (simp_all add: axis_defs dir_defs CHUNK_SIZE_def CHUNK_HEIGHT_def)
  have en: "\<forall>d < dSize DIR_SOUTH. \<forall>u < uSize DIR_SOUTH. \<forall>v < vSize DIR_SOUTH.
      maskEntry C DIR_SOUTH d u v = (if d = 15 \<and> v < 10 then Some (61441) else None)"
    unfolding sz using flat_south [OF f] by (simp add: sz)
  show ?thesis
    using meshDir_one_face [OF en, of bufs] by (simp add: sz topMask_nonzero)
qed

lemma flat_meshDir_east:
  assumes f: "flatWorld C L"
  shows "meshDir C DIR_EAST bufs = emitQuad C DIR_EAST 15 0 0 16 10 (61441) bufs"
proof -
  have sz: "dSize DIR_EAST = 16" "uSize DIR_EAST = 16" "vSize DIR_EAST = 256"
    by (simp_all add: axis_defs dir_defs CHUNK_SIZE_def CHUNK_HEIGHT_def)
  have en: "\<forall>d < dSize DIR_EAST. \<forall>u < uSize DIR_EAST. \<forall>v < vSize DIR_EAST.
      maskEntry C DIR_EAST d u v = (if d = 15 \<and> v < 10 then Some (61441) else None)"
    unfolding sz using flat_east [OF f] by (simp add: sz)
  show ?thesis
    using meshDir_one_face [OF en, of bufs] by (simp add: sz topMask_nonzero)
qed

lemma flat_meshDir_west:
  assumes f: "flatWorld C L"
  shows "meshDir C DIR_WEST bufs = emitQuad C DIR_WEST 0 0 0 16 10 (61441) bufs"
proof -
  have sz: "dSize DIR_WEST = 16" "uSize DIR_WEST = 16" "vSize DIR_WEST = 256"
    by (simp_all add: axis_defs dir_defs CHUNK_SIZE_def CHUNK_HEIGHT_def)
  have en: "\<forall>d < dSize DIR_WEST. \<forall>u < uSize DIR_WEST. \<forall>v < vSize DIR_WEST.
      maskEntry C DIR_WEST d u v = (if d = 0 \<and> v < 10 then Some (61441) else None)"
    unfolding sz using flat_west [OF f] by (simp add: sz)
  show ?thesis
    using meshDir_one_face [OF en, of bufs] by (simp add: sz topMask_nonzero)
qed

lemma flat_dirs:
  assumes "flatWorld C L"
  shows "foldE (meshDir C) [0..<6] bufs = emitAll C (flatQuads L) bufs"
proof -
  have l: "[0..<6] = [DIR_UP, DIR_DOWN, DIR_NORTH, DIR_SOUTH, DIR_EAST, DIR_WEST]"
    by (simp add: dir_defs numeral_eq_Suc)
  show ?thesis
    unfolding l emitAll_def flatQuads_def
    by (simp add: flat_meshDir_up [OF assms] flat_meshDir_down [OF assms]
        flat_meshDir_north [OF assms] flat_meshDir_south [OF assms]
        flat_meshDir_east [OF assms] flat_meshDir_west [OF assms] split: sum.splits)
qed

lemma emitAll_opaque:
  assumes "c_blockInfo C 1 = Some info" and "\<not> transparent info"
  shows "list_all (\<lambda>(dir, d, h, c). nat (c AND 255) = 1) qs \<Longrightarrow> opaqueQuads n bufs \<Longrightarrow>
         \<exists>bufs'. emitAll C qs bufs = Inr bufs' \<and> opaqueQuads (n + length qs) bufs'"
proof (induction qs arbitrary: n bufs)
  case Nil
  then show ?case by (simp add: emitAll_def)
next
  case (Cons q qs)
  obtain dir d h c where q: "q = (dir, d, h, c)" by (cases q) auto
  with Cons.prems have c: "c_blockInfo C (nat (c AND 255)) = Some info"
    using assms by simp
  from emitQuad_opaque [OF c assms(2) Cons.prems(2), of dir d 0 0 16 h] obtain b1 where
    b1: "emitQuad C dir d 0 0 16 h c bufs = Inr b1" "opaqueQuads (Suc n) b1" by blast
  from Cons.IH [OF _ b1(2)] Cons.prems(1) obtain b2 where
    "emitAll C qs b1 = Inr b2" "opaqueQuads (Suc n + length qs) b2" by auto
  with b1 q show ?case
    by (simp add: emitAll_def)
qed

lemma flat_meshChunk:
  assumes "flatWorld \<lparr>c_blocks = blocks, c_cx = cx, c_cz = cz, c_neighborBlocks = nb,
             c_blockInfo = bi, c_light = light, c_neighborLights = nl\<rparr> L"
  shows "\<exists>ot tt.
           emitAll \<lparr>c_blocks = blocks, c_cx = cx, c_cz = cz, c_neighborBlocks = nb,
                    c_blockInfo = bi, c_light = light, c_neighborLights = nl\<rparr>
             (flatQuads L) (createTemp, createTemp) = Inr (ot, tt) \<and>
           meshChunk blocks cx cz nb bi light nl = Inr (toMeshData ot, toMeshData tt) \<and>
           vertexCountOf (toMeshData ot) = 24 \<and> length (md_indices (toMeshData ot)) = 36 \<and>
           vertexCountOf (toMeshData tt) = 0 \<and> md_indices (toMeshData tt) = []"
proof -
  define C where "C = \<lparr>c_blocks = blocks, c_cx = cx, c_cz = cz, c_neighborBlocks = nb,
             c_blockInfo = bi, c_light = light, c_neighborLights = nl\<rparr>"
  from assms obtain info where i: "c_blockInfo C 1 = Some info" "\<not> transparent info"
    by (auto simp add: flatWorld_def C_def)
  have "opaqueQuads 0 (createTemp, createTemp)"
    by (simp add: opaqueQuads_def createTemp_def)
  moreover have "list_all (\<lambda>(dir, d, h, c). nat (c AND 255) = 1) (flatQuads L)"
    by (simp add: flatQuads_def topMask_block)
  ultimately obtain ot tt where
    e: "emitAll C (flatQuads L) (createTemp, createTemp) = Inr (ot, tt)"
    and q: "opaqueQuads (0 + length (flatQuads L)) (ot, tt)"
    using emitAll_opaque [OF i, of "flatQuads L" 0 "(createTemp, createTemp)"] by auto
  from e flat_dirs [OF assms [folded C_def], of "(createTemp, createTemp)"]
  have "meshChunk blocks cx cz nb bi light nl = Inr (toMeshData ot, toMeshData tt)"
    by (simp add: meshChunk_def C_def [symmetric] Let_def)
  with q e show ?thesis
    unfolding C_def [symmetric]
    by (simp add: opaqueQuads_def toMeshData_def vertexCountOf_def createTemp_def flatQuads_def)
qed


subsection \<open>A concrete flat world\<close>

lemma ta_get_map:
  assumes "0 \<le> i" and "nat i < n"
  shows "ta_get (map f [0..<n]) i = Some (unat (f (nat i)))"
  using assms by (simp add: ta_get_def)

lemma blockIndex_layer:
  assumes "0 \<le> x" "x < 16" "0 \<le> y" "y < 256" "0 \<le> z" "z < 16"
  shows "0 \<le> blockIndex x y z" and "nat (blockIndex x y z) < CHUNK_VOLUME"
    and "nat (blockIndex x y z) mod 256 = nat y"
proof -
  have b: "blockIndex x y z = (x * 16 + z) * 256 + y"
    by (simp add: blockIndex_def CHUNK_SIZE_def CHUNK_HEIGHT_def algebra_simps)
  show "0 \<le> blockIndex x y z" using assms unfolding b by simp
  have n: "nat (blockIndex x y z) = (nat x * 16 + nat z) * 256 + nat y"
    using assms unfolding b by (simp add: nat_add_distrib nat_mult_distrib)
  have "nat x * 16 + nat z \<le> 255" using assms by simp
  then have "(nat x * 16 + nat z) * 256 \<le> 255 * 256" by simp
  then show "nat (blockIndex x y z) < CHUNK_VOLUME"
    using assms unfolding n CHUNK_VOLUME_def by simp
  have "((nat x * 16 + nat z) * 256 + nat y) mod 256 = nat y mod 256"
    by (metis add.commute mod_mult_self1)
  then show "nat (blockIndex x y z) mod 256 = nat y"
    using assms unfolding n by (simp only: ) simp
qed

lemma scenario_flat: "flatWorld scenarioCtx (Some 240)"
proof -
  have blk: "ta_get scenarioBlocks (blockIndex x y z) = Some (if y < 10 then 1 else 0)"
    if "0 \<le> x" "x < 16" "0 \<le> y" "y < 256" "0 \<le> z" "z < 16" for x y z
    unfolding scenarioBlocks_def
    using blockIndex_layer [OF that] that
    by (simp add: ta_get_map nat_less_iff)
  have lgt: "ta_get scenarioLight (blockIndex x 10 z) = Some 240"
    if "0 \<le> x" "x < 16" "0 \<le> z" "z < 16" for x z
    unfolding scenarioLight_def
    using blockIndex_layer [of x 10 z] that
    by (simp add: ta_get_map)
  show ?thesis
    unfolding flatWorld_def scenarioCtx_def
    by (simp add: blk lgt demoTable_def demoInfo_def CHUNK_SIZE_def CHUNK_HEIGHT_def)
qed

text \<open>
  Claim C1, as the code has it (the scenario of a chunk whose layers y = 0..9 are an
  opaque block and the rest air, with no neighbour data, uniformly lit above the
  surface).  \<open>meshChunk\<close> emits exactly six merged quads: the top (16 x 16, at y = 9),
  the four side walls (each 16 x 10) and also the bottom (16 x 16, at y = 0: the
  position below the world reads as air, with light 0).  The opaque buffer therefore
  has 24 vertices and 36 indices (12 triangles); the transparent buffer is empty.
\<close>

theorem flat_world_mesh:
  assumes "flatWorld \<lparr>c_blocks = blocks, c_cx = cx, c_cz = cz, c_neighborBlocks = nb,
             c_blockInfo = bi, c_light = light, c_neighborLights = nl\<rparr> L"
  shows "\<exists>ot tt.
           emitAll \<lparr>c_blocks = blocks, c_cx = cx, c_cz = cz, c_neighborBlocks = nb,
                    c_blockInfo = bi, c_light = light, c_neighborLights = nl\<rparr>
             (flatQuads L) (createTemp, createTemp) = Inr (ot, tt) \<and>
           meshChunk blocks cx cz nb bi light nl = Inr (toMeshData ot, toMeshData tt) \<and>
           vertexCountOf (toMeshData ot) = 24 \<and> length (md_indices (toMeshData ot)) = 36 \<and>
           vertexCountOf (toMeshData tt) = 0 \<and> md_indices (toMeshData tt) = []"
  using assms by (rule flat_meshChunk)

theorem flat_world_mesh_witness:
  "flatWorld scenarioCtx (Some 240) \<and>
   (\<exists>ot tt.
      emitAll scenarioCtx (flatQuads (Some 240)) (createTemp, createTemp) = Inr (ot, tt) \<and>
      meshChunk scenarioBlocks 0 0 Map.empty demoTable scenarioLight Map.empty
        = Inr (toMeshData ot, toMeshData tt) \<and>
      vertexCountOf (toMeshData ot) = 24 \<and> length (md_indices (toMeshData ot)) = 36 \<and>
      vertexCountOf (toMeshData tt) = 0 \<and> md_indices (toMeshData tt) = [])"
  using flat_world_mesh [OF scenario_flat [unfolded scenarioCtx_def]] scenario_flat
  unfolding scenarioCtx_def by simp

text \<open>
  The spec's count for this scenario (20 vertices, 10 triangles, no bottom face) is not
  what the code produces: the opaque buffer has 24 vertices and 12 triangles.
\<close>

theorem flat_world_counterexample:
  "opaqueCounts (meshChunk scenarioBlocks 0 0 Map.empty demoTable scenarioLight Map.empty)
     = Some (24, 12) \<and>
   opaqueCounts (meshChunk scenarioBlocks 0 0 Map.empty demoTable scenarioLight Map.empty)
     \<noteq> Some (20, 10)"
proof -
  from flat_meshChunk [OF scenario_flat [unfolded scenarioCtx_def]] obtain ot tt where
    "meshChunk scenarioBlocks 0 0 Map.empty demoTable scenarioLight Map.empty
       = Inr (toMeshData ot, toMeshData tt)"
    "vertexCountOf (toMeshData ot) = 24" "length (md_indices (toMeshData ot)) = 36"
    by blast
  then show ?thesis
    by (simp add: opaqueCounts_def)
qed


section \<open>Chunk and ChunkManager\<close>

text \<open>
  A chunk object.  The fields are \<open>cx\<close>, \<open>cz\<close>, \<open>data\<close> and \<open>dirty\<close> of the class; the
  block type written by \<open>setBlock\<close> is a \<open>BlockType\<close>, one byte.
\<close>

record Chunk =
  chunk_cx :: int
  chunk_cz :: int
  chunk_data :: "byte list"
  chunk_dirty :: bool

definition newChunk :: "int \<Rightarrow> int \<Rightarrow> Chunk" where
  "newChunk cx cz = \<lparr>chunk_cx = cx, chunk_cz = cz, chunk_data = replicate CHUNK_VOLUME 0,
                      chunk_dirty = True\<rparr>"

definition inBounds :: "int \<Rightarrow> int \<Rightarrow> int \<Rightarrow> bool" where
  "inBounds x y z \<longleftrightarrow>
     x \<ge> 0 \<and> x < CHUNK_SIZE \<and> y \<ge> 0 \<and> y < CHUNK_HEIGHT \<and> z \<ge> 0 \<and> z < CHUNK_SIZE"

definition Chunk_getBlock :: "Chunk \<Rightarrow> int \<Rightarrow> int \<Rightarrow> int \<Rightarrow> nat option" where
  "Chunk_getBlock c x y z =
     (if \<not> inBounds x y z then Some 0 else ta_get (chunk_data c) (blockIndex x y z))"

text \<open>
  \<open>Chunk.setBlock\<close>: nothing outside the bounds; inside, the byte is stored and the
  chunk marked dirty only when the stored value differs from the new one.
\<close>

definition Chunk_setBlock :: "Chunk \<Rightarrow> int \<Rightarrow> int \<Rightarrow> int \<Rightarrow> byte \<Rightarrow> Chunk" where
  "Chunk_setBlock c x y z type =
     (if \<not> inBounds x y z then c
      else
        let idx = blockIndex x y z in
        if ta_get (chunk_data c) idx \<noteq> Some (unat type)
        then c\<lparr>chunk_data := (chunk_data c)[nat idx := type], chunk_dirty := True\<rparr>
        else c)"

text \<open>
  The chunk map of the manager, keyed by \<open>chunkKey(cx, cz)\<close>: the string \<open>"cx,cz"\<close>
  stands for the pair.  \<open>worldToLocal\<close> uses JavaScript's remainder, which truncates
  towards zero (\<open>smod\<close>).
\<close>

type_synonym chunk_map = "int \<times> int \<rightharpoonup> Chunk"

definition worldToChunk :: "int \<Rightarrow> int" where
  "worldToChunk v = v div CHUNK_SIZE"

definition worldToLocal :: "int \<Rightarrow> int" where
  "worldToLocal v = ((v smod CHUNK_SIZE) + CHUNK_SIZE) smod CHUNK_SIZE"

definition markDirty :: "chunk_map \<Rightarrow> int \<Rightarrow> int \<Rightarrow> chunk_map" where
  "markDirty chunks cx cz =
     (case chunks (cx, cz) of
        None \<Rightarrow> chunks
      | Some chunk \<Rightarrow> chunks((cx, cz) \<mapsto> chunk\<lparr>chunk_dirty := True\<rparr>))"

definition setBlock :: "chunk_map \<Rightarrow> int \<Rightarrow> int \<Rightarrow> int \<Rightarrow> byte \<Rightarrow> chunk_map" where
  "setBlock chunks wx wy wz type =
     (let cx = worldToChunk wx; cz = worldToChunk wz in
      case chunks (cx, cz) of
        None \<Rightarrow> chunks
      | Some chunk \<Rightarrow>
          let lx = worldToLocal wx;
              lz = worldToLocal wz;
              m0 = chunks((cx, cz) \<mapsto> Chunk_setBlock chunk lx wy lz type);
              m1 = (if lx = 0 then markDirty m0 (cx - 1) cz else m0);
              m2 = (if lx = CHUNK_SIZE - 1 then markDirty m1 (cx + 1) cz else m1);
              m3 = (if lz = 0 then markDirty m2 cx (cz - 1) else m2);
              m4 = (if lz = CHUNK_SIZE - 1 then markDirty m3 cx (cz + 1) else m3)
          in m4)"

text \<open>A chunk that is loaded under the key is dirty (nothing is asked of an absent one).\<close>

definition dirtyIfLoaded :: "chunk_map \<Rightarrow> int \<times> int \<Rightarrow> bool" where
  "dirtyIfLoaded chunks key = (case chunks key of None \<Rightarrow> True | Some c \<Rightarrow> chunk_dirty c)"

text \<open>Two loaded chunks, side by side along X, whose meshes are up to date.\<close>

definition cleanChunk :: "int \<Rightarrow> int \<Rightarrow> Chunk" where
  "cleanChunk cx cz = (newChunk cx cz)\<lparr>chunk_dirty := False\<rparr>"

definition demoWorld :: chunk_map where
  "demoWorld = [(0, 0) \<mapsto> cleanChunk 0 0, (- 1, 0) \<mapsto> cleanChunk (- 1) 0]"

lemma smod16_nonneg: "0 \<le> v \<Longrightarrow> (v::int) smod 16 = v mod 16"
  unfolding signed_modulo_int_def by (cases "v = 0") (simp_all add: sgn_if)

lemma smod16_neg: "v < 0 \<Longrightarrow> (v::int) smod 16 = - ((- v) mod 16)"
  unfolding signed_modulo_int_def by (simp add: sgn_if)

lemma mod16_shift: "(- ((- v) mod 16) + 16) mod 16 = (v::int) mod 16"
proof -
  have "(- ((- v) mod 16) + 16) mod 16 = (- ((- v) mod 16)) mod 16"
    by (rule mod_add_self2)
  also have "\<dots> = (- (- v)) mod 16"
    by (rule mod_minus_eq)
  finally show ?thesis by simp
qed

text \<open>\<open>worldToLocal\<close> is the true modulo, as its documentation says.\<close>

lemma worldToLocal_mod: "worldToLocal v = v mod 16"
proof (cases "0 \<le> v")
  case True
  have "0 \<le> v mod 16 + 16" by simp
  then have "(v mod 16 + 16) smod 16 = (v mod 16 + 16) mod 16" by (rule smod16_nonneg)
  then show ?thesis
    using True unfolding worldToLocal_def CHUNK_SIZE_def by (simp only: smod16_nonneg) simp
next
  case False
  then have n: "v smod 16 = - ((- v) mod 16)" by (simp only: smod16_neg not_le)
  have "- v mod 16 < 16" by simp
  then have "0 \<le> - ((- v) mod 16) + 16" by linarith
  then have "(- ((- v) mod 16) + 16) smod 16 = (- ((- v) mod 16) + 16) mod 16"
    by (rule smod16_nonneg)
  then show ?thesis
    unfolding worldToLocal_def CHUNK_SIZE_def n by (simp only: mod16_shift)
qed

lemma markDirty_same:
  "chunks k = Some c \<Longrightarrow> markDirty chunks (fst k) (snd k) k = Some (c\<lparr>chunk_dirty := True\<rparr>)"
  by (cases k) (simp add: markDirty_def)

lemma markDirty_other: "k \<noteq> (cx, cz) \<Longrightarrow> markDirty chunks cx cz k = chunks k"
  by (simp add: markDirty_def split: option.splits)

lemma markDirty_dirty: "dirtyIfLoaded (markDirty chunks cx cz) (cx, cz)"
  by (simp add: markDirty_def dirtyIfLoaded_def split: option.splits)

lemma markDirty_keeps: "dirtyIfLoaded chunks k \<Longrightarrow> dirtyIfLoaded (markDirty chunks cx cz) k"
  by (cases "k = (cx, cz)") (auto simp add: markDirty_def dirtyIfLoaded_def split: option.splits)


lemma blockIndex_range:
  assumes "inBounds x y z"
  shows "0 \<le> blockIndex x y z \<and> blockIndex x y z < int CHUNK_VOLUME"
proof -
  from assms have a: "0 \<le> x" "x \<le> 15" "0 \<le> y" "y \<le> 255" "0 \<le> z" "z \<le> 15"
    by (simp_all add: inBounds_def CHUNK_SIZE_def CHUNK_HEIGHT_def)
  have "x * 16 + z \<le> 15 * 16 + 15" using a by (intro add_mono) simp_all
  then have "(x * 16 + z) * 256 \<le> 255 * 256" by simp
  with a show ?thesis
    by (simp add: blockIndex_def CHUNK_SIZE_def CHUNK_HEIGHT_def CHUNK_VOLUME_def)
qed

lemma Chunk_setBlock_outside: "\<not> inBounds x y z \<Longrightarrow> Chunk_setBlock c x y z t = c"
  by (simp add: Chunk_setBlock_def)

lemma Chunk_setBlock_inside:
  assumes "inBounds x y z" and "length (chunk_data c) = CHUNK_VOLUME"
  shows "Chunk_getBlock (Chunk_setBlock c x y z t) x y z = Some (unat t)"
    and "chunk_dirty (Chunk_setBlock c x y z t)
           = (chunk_dirty c \<or> Chunk_getBlock c x y z \<noteq> Some (unat t))"
  using assms blockIndex_range [OF assms(1)]
  by (auto simp add: Chunk_setBlock_def Chunk_getBlock_def ta_get_def Let_def)

lemma setBlock_chunk:
  assumes "chunks (worldToChunk wx, worldToChunk wz) = Some c"
  shows "setBlock chunks wx wy wz t (worldToChunk wx, worldToChunk wz)
           = Some (Chunk_setBlock c (worldToLocal wx) wy (worldToLocal wz) t)"
  using assms
  by (simp add: setBlock_def Let_def markDirty_other)

lemma setBlock_neighbors:
  assumes "chunks (worldToChunk wx, worldToChunk wz) = Some c"
  shows "(worldToLocal wx = 0 \<longrightarrow>
            dirtyIfLoaded (setBlock chunks wx wy wz t) (worldToChunk wx - 1, worldToChunk wz)) \<and>
         (worldToLocal wx = CHUNK_SIZE - 1 \<longrightarrow>
            dirtyIfLoaded (setBlock chunks wx wy wz t) (worldToChunk wx + 1, worldToChunk wz)) \<and>
         (worldToLocal wz = 0 \<longrightarrow>
            dirtyIfLoaded (setBlock chunks wx wy wz t) (worldToChunk wx, worldToChunk wz - 1)) \<and>
         (worldToLocal wz = CHUNK_SIZE - 1 \<longrightarrow>
            dirtyIfLoaded (setBlock chunks wx wy wz t) (worldToChunk wx, worldToChunk wz + 1))"
  using assms
  by (simp add: setBlock_def Let_def markDirty_dirty markDirty_keeps)

lemma setBlock_dom: "dom (setBlock chunks wx wy wz t) = dom chunks"
proof -
  have d: "dom (markDirty m cx cz) = dom m" for m cx cz
    by (auto simp add: markDirty_def split: option.splits if_splits)
  show ?thesis
    by (auto simp add: setBlock_def Let_def d split: option.splits)
qed


lemma worldToLocal_inBounds: "inBounds (worldToLocal wx) wy (worldToLocal wz) \<longleftrightarrow> 0 \<le> wy \<and> wy < 256"
  by (simp add: inBounds_def worldToLocal_mod CHUNK_SIZE_def CHUNK_HEIGHT_def)

text \<open>
  Claim C8, as amended.  For an edit that resolves to a loaded chunk (whose array has
  the full volume): the local coordinates are the true modulo of the world ones; with
  \<open>wy\<close> inside the world height the chunk afterwards reads back the new type there, and
  its dirty flag is set exactly when it was set before or the stored value changed; with
  \<open>wy\<close> outside, the chunk is left as it was; and a loaded neighbour across a boundary
  the local coordinate touches (0 or 15 on either lateral axis) is dirty afterwards.
\<close>

theorem setBlock_write_through:
  assumes "chunks (worldToChunk wx, worldToChunk wz) = Some c"
    and "length (chunk_data c) = CHUNK_VOLUME"
  shows "\<exists>c'. setBlock chunks wx wy wz t (worldToChunk wx, worldToChunk wz) = Some c' \<and>
           worldToLocal wx = wx mod 16 \<and> worldToLocal wz = wz mod 16 \<and>
           (0 \<le> wy \<and> wy < CHUNK_HEIGHT \<longrightarrow>
              Chunk_getBlock c' (worldToLocal wx) wy (worldToLocal wz) = Some (unat t) \<and>
              chunk_dirty c' =
                (chunk_dirty c \<or>
                 Chunk_getBlock c (worldToLocal wx) wy (worldToLocal wz) \<noteq> Some (unat t))) \<and>
           (wy < 0 \<or> CHUNK_HEIGHT \<le> wy \<longrightarrow> c' = c) \<and>
           (worldToLocal wx = 0 \<longrightarrow>
              dirtyIfLoaded (setBlock chunks wx wy wz t) (worldToChunk wx - 1, worldToChunk wz)) \<and>
           (worldToLocal wx = CHUNK_SIZE - 1 \<longrightarrow>
              dirtyIfLoaded (setBlock chunks wx wy wz t) (worldToChunk wx + 1, worldToChunk wz)) \<and>
           (worldToLocal wz = 0 \<longrightarrow>
              dirtyIfLoaded (setBlock chunks wx wy wz t) (worldToChunk wx, worldToChunk wz - 1)) \<and>
           (worldToLocal wz = CHUNK_SIZE - 1 \<longrightarrow>
              dirtyIfLoaded (setBlock chunks wx wy wz t) (worldToChunk wx, worldToChunk wz + 1))"
proof -
  let ?c' = "Chunk_setBlock c (worldToLocal wx) wy (worldToLocal wz) t"
  have 1: "setBlock chunks wx wy wz t (worldToChunk wx, worldToChunk wz) = Some ?c'"
    by (rule setBlock_chunk [where chunks = chunks, OF assms(1)])
  have 2: "0 \<le> wy \<and> wy < CHUNK_HEIGHT \<longrightarrow>
      Chunk_getBlock ?c' (worldToLocal wx) wy (worldToLocal wz) = Some (unat t) \<and>
      chunk_dirty ?c' =
        (chunk_dirty c \<or> Chunk_getBlock c (worldToLocal wx) wy (worldToLocal wz) \<noteq> Some (unat t))"
    using Chunk_setBlock_inside [OF _ assms(2), of "worldToLocal wx" wy "worldToLocal wz" t]
    by (simp add: worldToLocal_inBounds CHUNK_HEIGHT_def)
  have 3: "wy < 0 \<or> CHUNK_HEIGHT \<le> wy \<longrightarrow> ?c' = c"
    using Chunk_setBlock_outside [of "worldToLocal wx" wy "worldToLocal wz" c t]
    by (auto simp add: worldToLocal_inBounds CHUNK_HEIGHT_def)
  from 1 2 3 setBlock_neighbors [where chunks = chunks and wy = wy and t = t, OF assms(1)] show ?thesis
    by (simp add: worldToLocal_mod)
qed

theorem setBlock_write_through_witness:
  "\<exists>c'. setBlock demoWorld 0 64 5 1 (0, 0) = Some c' \<and>
         Chunk_getBlock c' 0 64 5 = Some 1 \<and> chunk_dirty c' \<and>
         dirtyIfLoaded (setBlock demoWorld 0 64 5 1) (- 1, 0) \<and>
         setBlock demoWorld 0 64 5 1 (- 1, 0) \<noteq> None"
proof -
  have l: "demoWorld (worldToChunk 0, worldToChunk 5) = Some (cleanChunk 0 0)"
    by (simp add: demoWorld_def worldToChunk_def CHUNK_SIZE_def)
  have v: "length (chunk_data (cleanChunk 0 0)) = CHUNK_VOLUME"
    by (simp add: cleanChunk_def newChunk_def)
  have g: "Chunk_getBlock (cleanChunk 0 0) 0 64 5 = Some 0"
    by (simp add: Chunk_getBlock_def cleanChunk_def newChunk_def inBounds_def ta_get_def
        blockIndex_def CHUNK_SIZE_def CHUNK_HEIGHT_def CHUNK_VOLUME_def)
  have d: "(- 1, 0) \<in> dom (setBlock demoWorld 0 64 5 1)"
    by (simp add: setBlock_dom demoWorld_def)
  from setBlock_write_through [where chunks = demoWorld and wy = 64 and t = 1, OF l v] g d show ?thesis
    by (auto simp add: worldToLocal_mod worldToChunk_def CHUNK_SIZE_def CHUNK_HEIGHT_def)
qed

text \<open>
  The claim as stated fails: writing the type a voxel already holds (here air over air)
  leaves a clean chunk clean.
\<close>

theorem setBlock_dirty_counterexample:
  "setBlock demoWorld 5 64 5 0 (0, 0) = Some (cleanChunk 0 0) \<and> \<not> chunk_dirty (cleanChunk 0 0)"
proof -
  have l: "demoWorld (worldToChunk 5, worldToChunk 5) = Some (cleanChunk 0 0)"
    by (simp add: demoWorld_def worldToChunk_def CHUNK_SIZE_def)
  have s: "Chunk_setBlock (cleanChunk 0 0) 5 64 5 0 = cleanChunk 0 0"
    by (simp add: Chunk_setBlock_def cleanChunk_def newChunk_def inBounds_def ta_get_def
        blockIndex_def CHUNK_SIZE_def CHUNK_HEIGHT_def CHUNK_VOLUME_def)
  from setBlock_chunk [where chunks = demoWorld and wy = 64 and t = 0, OF l] s show ?thesis
    by (simp add: worldToLocal_mod worldToChunk_def CHUNK_SIZE_def cleanChunk_def)
qed

section \<open>WorkerPool\<close>

text \<open>
  A task is identified by a number; settling its promise (the \<open>resolve\<close> and \<open>reject\<close>
  callbacks of \<open>PendingTask\<close>) is recorded in the log \<open>settlements\<close>.  A worker is
  identified by its index; \<open>terminate()\<close> and \<open>postMessage\<close> calls are recorded too.
\<close>

datatype reject_reason = WorkerError | PoolDisposed

datatype outcome = Resolved nat | Rejected reject_reason

record WorkerEntry =
  worker :: nat
  busy :: bool

record WorkerPool =
  workers :: "WorkerEntry list"
  queue :: "nat list"
  resolvers :: "nat \<rightharpoonup> nat"
  settlements :: "(nat \<times> outcome) list"
  terminated :: "nat list"
  posted :: "(nat \<times> nat) list"

definition newPool :: "nat \<Rightarrow> WorkerPool" where
  "newPool poolSize =
     \<lparr>workers = map (\<lambda>i. \<lparr>worker = i, busy = False\<rparr>) [0..<poolSize], queue = [],
      resolvers = Map.empty, settlements = [], terminated = [], posted = []\<rparr>"

text \<open>\<open>entry.busy = b\<close> on the entry object of worker \<open>w\<close>.\<close>

definition setBusy :: "nat \<Rightarrow> bool \<Rightarrow> WorkerEntry list \<Rightarrow> WorkerEntry list" where
  "setBusy w b es = map (\<lambda>e. if worker e = w then e\<lparr>busy := b\<rparr> else e) es"

definition dispatch :: "WorkerPool \<Rightarrow> nat \<Rightarrow> nat \<Rightarrow> WorkerPool" where
  "dispatch p w task =
     p\<lparr>workers := setBusy w True (workers p),
       resolvers := (resolvers p)(w \<mapsto> task),
       posted := posted p @ [(w, task)]\<rparr>"

definition queueTask :: "WorkerPool \<Rightarrow> nat \<Rightarrow> WorkerPool" where
  "queueTask p task =
     (case find (\<lambda>w. \<not> busy w) (workers p) of
        Some idle \<Rightarrow> dispatch p (worker idle) task
      | None \<Rightarrow> p\<lparr>queue := queue p @ [task]\<rparr>)"

definition dispose :: "WorkerPool \<Rightarrow> WorkerPool" where
  "dispose p =
     p\<lparr>terminated := terminated p @ map worker (workers p),
       workers := [],
       settlements := settlements p @ map (\<lambda>task. (task, Rejected PoolDisposed)) (queue p),
       queue := [],
       resolvers := Map.empty\<rparr>"

text \<open>One worker, task 1 in flight on it, task 2 waiting in the queue.\<close>

definition busyPool :: WorkerPool where
  "busyPool = queueTask (queueTask (newPool 1) 1) 2"

lemma busyPool_state:
  "resolvers busyPool 0 = Some 1 \<and> queue busyPool = [2] \<and> settlements busyPool = []"
  by (simp add: busyPool_def queueTask_def newPool_def dispatch_def setBusy_def)

text \<open>
  Claim C2, as amended.  \<open>dispose()\<close> terminates every worker of the pool and rejects
  every job still in the queue with the cancellation error, once each and in queue
  order; it settles no other promise, and leaves the pool without workers, queue or
  resolver entries.
\<close>

theorem dispose_rejects_queued:
  "terminated (dispose p) = terminated p @ map worker (workers p) \<and>
   list_all (\<lambda>task. (task, Rejected PoolDisposed) \<in> set (settlements (dispose p))) (queue p) \<and>
   settlements (dispose p) = settlements p @ map (\<lambda>task. (task, Rejected PoolDisposed)) (queue p) \<and>
   workers (dispose p) = [] \<and> queue (dispose p) = [] \<and> resolvers (dispose p) = Map.empty"
  by (simp add: dispose_def list_all_iff)

text \<open>
  The claim as stated fails for a job in flight: task 1 was dispatched to the only
  worker, and after \<open>dispose()\<close> its promise is neither resolved nor rejected, while the
  queued task 2 is rejected.  Its resolver entry is gone, so no later event settles it.
\<close>

theorem dispose_in_flight_counterexample:
  "resolvers busyPool 0 = Some 1 \<and>
   settlements (dispose busyPool) = [(2, Rejected PoolDisposed)] \<and>
   1 \<notin> fst ` set (settlements (dispose busyPool)) \<and>
   resolvers (dispose busyPool) = Map.empty"
  using busyPool_state by (simp add: dispose_def)

section \<open>ChunkManager: mesh queueing\<close>

text \<open>
  The manager's state as far as meshing goes: the chunk map, the set of keys with a mesh
  job in flight, the scene's meshes per key (\<open>addChunkMesh\<close>), and the errors written to
  the console.  A mesh result carries the chunk coordinates and, per buffer, the counts
  the worker reports; \<open>buildMesh\<close> looks at nothing else before building the geometry.
\<close>

record TransferableMeshData =
  t_vertexCount :: nat
  t_indexCount :: nat
  t_positionsLength :: nat
  t_indicesLength :: nat



record ChunkManager =
  chunks :: chunk_map
  meshingInProgress :: "(int \<times> int) set"
  sceneMeshes :: "int \<times> int \<rightharpoonup> TransferableMeshData option \<times> TransferableMeshData option"
  consoleErrors :: "reject_reason list"












section \<open>LightEngine\<close>

text \<open>
  A voxel is its three local coordinates.  The work queues \<open>sunQ\<close> and \<open>blkQ\<close> of the source
  are flat number arrays read three entries at a time from the index \<open>qi\<close>; here a queue is
  the list of the coordinate triples not yet read.
\<close>

type_synonym voxel = "int \<times> int \<times> int"

definition DX :: "nat \<Rightarrow> int" where
  "DX d = [1, - 1, 0, 0, 0, 0] ! d"

definition DY :: "nat \<Rightarrow> int" where
  "DY d = [0, 0, 1, - 1, 0, 0] ! d"

definition DZ :: "nat \<Rightarrow> int" where
  "DZ d = [0, 0, 0, 0, 1, - 1] ! d"

text \<open>\<open>light[i]\<close> as an operand of a bitwise operator: \<open>undefined\<close> counts as 0.\<close>

definition lightAt :: "byte list \<Rightarrow> int \<Rightarrow> int" where
  "lightAt light i = (case ta_get light i of None \<Rightarrow> 0 | Some v \<Rightarrow> int v)"

text \<open>
  \<open>arr[i] = v\<close> on a \<open>Uint8Array\<close>: outside the array nothing is stored; inside, the
  value is stored modulo 256.
\<close>

definition ta_set :: "byte list \<Rightarrow> int \<Rightarrow> int \<Rightarrow> byte list" where
  "ta_set arr i v = (if 0 \<le> i \<and> i < int (length arr) then arr[nat i := word_of_int v] else arr)"

text \<open>
  \<open>isTransparent[blocks[i]]\<close> as a condition and \<open>emissions[blocks[i]] || 0\<close>: a read outside
  either array is \<open>undefined\<close>, which is falsy.
\<close>

definition transparentAt :: "byte list \<Rightarrow> bool list \<Rightarrow> int \<Rightarrow> bool" where
  "transparentAt blocks isTransparent i =
     (case ta_get blocks i of None \<Rightarrow> False
      | Some b \<Rightarrow> b < length isTransparent \<and> isTransparent ! b)"

definition emissionAt :: "byte list \<Rightarrow> int list \<Rightarrow> int \<Rightarrow> int" where
  "emissionAt blocks emissions i =
     (case ta_get blocks i of None \<Rightarrow> 0
      | Some b \<Rightarrow> if b < length emissions then emissions ! b else 0)"

text \<open>The negation of the bounds test that skips a neighbour.\<close>

definition inChunk :: "int \<Rightarrow> int \<Rightarrow> int \<Rightarrow> bool" where
  "inChunk nx ny nz \<longleftrightarrow>
     0 \<le> nx \<and> nx < CHUNK_SIZE \<and> 0 \<le> ny \<and> ny < CHUNK_HEIGHT \<and> 0 \<le> nz \<and> nz < CHUNK_SIZE"

text \<open>The two outer loops \<open>for x\<close>, \<open>for z\<close> around a body that updates a state.\<close>

definition forXZ :: "(int \<Rightarrow> int \<Rightarrow> 'a \<Rightarrow> 'a) \<Rightarrow> 'a \<Rightarrow> 'a" where
  "forXZ body s =
     fold (\<lambda>x s. fold (\<lambda>z s. body (int x) (int z) s) [0..<nat CHUNK_SIZE] s) [0..<nat CHUNK_SIZE] s"

subsection \<open>Phase 1: column sunlight\<close>

text \<open>
  The loop \<open>for (y = CHUNK_HEIGHT - 1; y >= 0; y--)\<close> of one column, with \<open>Suc y\<close> the number
  of voxels still to visit: it stops at the first voxel that is not transparent.
\<close>

primrec columnScan :: "byte list \<Rightarrow> bool list \<Rightarrow> int \<Rightarrow> int \<Rightarrow> nat \<Rightarrow> byte list \<Rightarrow> byte list" where
  "columnScan blocks isTransparent x z 0 light = light"
| "columnScan blocks isTransparent x z (Suc y) light =
     (let i = blockIndex x (int y) z in
      if transparentAt blocks isTransparent i
      then columnScan blocks isTransparent x z y (ta_set light i 0xF0)
      else light)"

definition columnSunlight :: "byte list \<Rightarrow> bool list \<Rightarrow> byte list \<Rightarrow> byte list" where
  "columnSunlight blocks isTransparent light =
     forXZ (\<lambda>x z. columnScan blocks isTransparent x z (nat CHUNK_HEIGHT)) light"

subsection \<open>Phase 2: sunlight flood fill\<close>

definition isFrontier :: "byte list \<Rightarrow> bool list \<Rightarrow> byte list \<Rightarrow> int \<Rightarrow> int \<Rightarrow> int \<Rightarrow> bool" where
  "isFrontier blocks isTransparent light x y z =
     list_ex (\<lambda>d.
       let nx = x + DX d; ny = y + DY d; nz = z + DZ d in
       inChunk nx ny nz \<and>
       (let ni = blockIndex nx ny nz in
        transparentAt blocks isTransparent ni \<and> drop_bit 4 (lightAt light ni) < 15)) [0..<6]"

primrec frontierScan ::
  "byte list \<Rightarrow> bool list \<Rightarrow> byte list \<Rightarrow> int \<Rightarrow> int \<Rightarrow> nat \<Rightarrow> bool \<Rightarrow> voxel list \<Rightarrow> voxel list" where
  "frontierScan blocks isTransparent light x z 0 foundDark sunQ = sunQ"
| "frontierScan blocks isTransparent light x z (Suc y) foundDark sunQ =
     (let i = blockIndex x (int y) z;
          sun = drop_bit 4 (lightAt light i) in
      if sun = 15 \<and> \<not> foundDark
      then frontierScan blocks isTransparent light x z y foundDark
             (if isFrontier blocks isTransparent light x (int y) z
              then sunQ @ [(x, int y, z)] else sunQ)
      else if sun < 15
      then frontierScan blocks isTransparent light x z y True sunQ
      else frontierScan blocks isTransparent light x z y foundDark sunQ)"

definition sunSeeds :: "byte list \<Rightarrow> bool list \<Rightarrow> byte list \<Rightarrow> voxel list" where
  "sunSeeds blocks isTransparent light =
     forXZ (\<lambda>x z. frontierScan blocks isTransparent light x z (nat CHUNK_HEIGHT) False) []"

text \<open>The body of \<open>for (d = 0; d < 6; d++)\<close> in the sunlight loop.\<close>

definition sunVisit ::
  "byte list \<Rightarrow> bool list \<Rightarrow> int \<Rightarrow> int \<Rightarrow> int \<Rightarrow> int \<Rightarrow> nat
     \<Rightarrow> byte list \<times> voxel list \<Rightarrow> byte list \<times> voxel list" where
  "sunVisit blocks isTransparent sx sy sz level d s =
     (case s of (light, sunQ) \<Rightarrow>
      let nx = sx + DX d; ny = sy + DY d; nz = sz + DZ d in
      if \<not> inChunk nx ny nz then s
      else let ni = blockIndex nx ny nz in
      if \<not> transparentAt blocks isTransparent ni then s
      else let newLevel = (if DY d = - 1 \<and> level = 15 then 15 else level - 1) in
      if newLevel \<le> 0 then s
      else if newLevel > drop_bit 4 (lightAt light ni)
      then (ta_set light ni (push_bit 4 newLevel OR (lightAt light ni AND 0x0F)),
            sunQ @ [(nx, ny, nz)])
      else s)"

text \<open>One iteration of \<open>while (qi < sunQ.length)\<close>, after the three reads of the queue.\<close>

definition sunStep ::
  "byte list \<Rightarrow> bool list \<Rightarrow> voxel \<Rightarrow> byte list \<times> voxel list \<Rightarrow> byte list \<times> voxel list" where
  "sunStep blocks isTransparent e s =
     (case e of (sx, sy, sz) \<Rightarrow>
      let level = drop_bit 4 (lightAt (fst s) (blockIndex sx sy sz)) in
      fold (sunVisit blocks isTransparent sx sy sz level) [0..<6] s)"

text \<open>
  The loop \<open>while (qi < Q.length) { read three entries; body }\<close> of both flood fills.  It
  is a partial function: \<open>None\<close> is a loop that never ends.
\<close>

partial_function (option) queueLoop ::
  "(voxel \<Rightarrow> byte list \<times> voxel list \<Rightarrow> byte list \<times> voxel list)
     \<Rightarrow> voxel list \<Rightarrow> byte list \<Rightarrow> byte list option" where
  "queueLoop body q light =
     (case q of [] \<Rightarrow> Some light
      | e # rest \<Rightarrow> (case body e (light, rest) of (light', q') \<Rightarrow> queueLoop body q' light'))"

subsection \<open>Phase 3: block light flood fill\<close>

definition seedColumn ::
  "byte list \<Rightarrow> int list \<Rightarrow> int \<Rightarrow> int \<Rightarrow> byte list \<times> voxel list \<Rightarrow> byte list \<times> voxel list" where
  "seedColumn blocks emissions x z s =
     fold (\<lambda>y s. case s of (light, blkQ) \<Rightarrow>
       let i = blockIndex x (int y) z;
           em = emissionAt blocks emissions i in
       if em > 0
       then (ta_set light i ((lightAt light i AND 0xF0) OR em), blkQ @ [(x, int y, z)])
       else s) [0..<nat CHUNK_HEIGHT] s"

definition blkVisit ::
  "byte list \<Rightarrow> bool list \<Rightarrow> int \<Rightarrow> int \<Rightarrow> int \<Rightarrow> int \<Rightarrow> nat
     \<Rightarrow> byte list \<times> voxel list \<Rightarrow> byte list \<times> voxel list" where
  "blkVisit blocks isTransparent bx by bz level d s =
     (case s of (light, blkQ) \<Rightarrow>
      let nx = bx + DX d; ny = by + DY d; nz = bz + DZ d in
      if \<not> inChunk nx ny nz then s
      else let ni = blockIndex nx ny nz in
      if \<not> transparentAt blocks isTransparent ni then s
      else let newLevel = level - 1 in
      if newLevel \<le> 0 then s
      else if newLevel > (lightAt light ni AND 0x0F)
      then (ta_set light ni ((lightAt light ni AND 0xF0) OR newLevel), blkQ @ [(nx, ny, nz)])
      else s)"

definition blkStep ::
  "byte list \<Rightarrow> bool list \<Rightarrow> voxel \<Rightarrow> byte list \<times> voxel list \<Rightarrow> byte list \<times> voxel list" where
  "blkStep blocks isTransparent e s =
     (case e of (bx, by, bz) \<Rightarrow>
      let level = lightAt (fst s) (blockIndex bx by bz) AND 0x0F in
      fold (blkVisit blocks isTransparent bx by bz level) [0..<6] s)"

text \<open>
  \<open>calculateLight\<close>: the source fills \<open>light\<close> in place and returns nothing; here the
  result is the final content of \<open>light\<close>.
\<close>

definition calculateLight ::
  "byte list \<Rightarrow> byte list \<Rightarrow> bool list \<Rightarrow> int list \<Rightarrow> byte list option" where
  "calculateLight blocks light isTransparent emissions =
     (let light1 = columnSunlight blocks isTransparent (map (\<lambda>b. 0) light);
          sunQ = sunSeeds blocks isTransparent light1 in
      case queueLoop (sunStep blocks isTransparent) sunQ light1 of
        None \<Rightarrow> None
      | Some light2 \<Rightarrow>
          (case forXZ (seedColumn blocks emissions) (light2, []) of
             (light3, blkQ) \<Rightarrow> queueLoop (blkStep blocks isTransparent) blkQ light3))"

section \<open>Termination of the flood fills\<close>

subsection \<open>Packing two nibbles in a byte\<close>

lemma and15: "(k::int) AND 15 = k mod 16"
  using take_bit_eq_mask [of 4 k] by (simp add: take_bit_eq_mod mask_eq_exp_minus_1)

lemma sun_pack:
  "push_bit 4 n OR (k AND 15) = 16 * n + k mod (16::int)"
proof -
  have "push_bit 4 n OR (k AND 15) = concat_bit 4 k n"
    by (simp add: concat_bit_def take_bit_eq_mask mask_eq_exp_minus_1 or.commute)
  also have "\<dots> = take_bit 4 k + push_bit 4 n"
    by (simp add: concat_bit_eq)
  finally show ?thesis
    by (simp add: take_bit_eq_mod push_bit_eq_mult)
qed

lemma and240:
  assumes "0 \<le> k" "k < 256"
  shows "(k::int) AND 240 = 16 * (k div 16)"
proof -
  have c: "(240::int) = push_bit 4 (mask 4)"
    by (simp add: mask_eq_exp_minus_1 push_bit_eq_mult)
  have k: "take_bit 8 k = k"
    using assms by (simp add: take_bit_int_eq_self)
  have "k AND 240 = push_bit 4 (drop_bit 4 k)"
  proof (rule bit_eqI)
    fix n
    have "bit k n \<Longrightarrow> n < 8"
      using k by (metis bit_take_bit_iff)
    then show "bit (k AND 240) n = bit (push_bit 4 (drop_bit 4 k)) n"
      unfolding c by (auto simp add: bit_simps)
  qed
  then show ?thesis
    by (simp add: push_bit_eq_mult drop_bit_eq_div)
qed

lemma blk_pack:
  assumes "0 \<le> n" "n \<le> 15" "0 \<le> k" "k < 256"
  shows "(k AND 240) OR n = 16 * (k div 16) + (n::int)"
proof -
  have n: "take_bit 4 n = n"
    using assms by (simp add: take_bit_int_eq_self)
  have "(k AND 240) OR n = concat_bit 4 n (k div 16)"
    using and240 [OF assms(3,4)] n by (simp add: concat_bit_def push_bit_eq_mult or.commute mult.commute)
  also have "\<dots> = take_bit 4 n + push_bit 4 (k div 16)"
    by (simp add: concat_bit_eq)
  finally show ?thesis
    using n by (simp add: push_bit_eq_mult)
qed

lemma unat_byte_of_int: "0 \<le> k \<Longrightarrow> k < 256 \<Longrightarrow> unat (word_of_int k :: byte) = nat k"
  by (simp add: unsigned_of_int take_bit_int_eq_self)

lemma unat_byte_less: "unat (b::byte) < 256"
  using unsigned_less [of b] by simp

lemma uint_byte_less: "uint (b::byte) < 256"
  using uint_bounded [of b] by simp


subsection \<open>Reading and writing the light array\<close>

lemma length_ta_set [simp]: "length (ta_set arr i v) = length arr"
  by (simp add: ta_set_def)

lemma lightAt_range: "0 \<le> lightAt light i \<and> lightAt light i < 256"
  by (simp add: lightAt_def ta_get_def uint_byte_less)

lemma lightAt_outside: "\<not> (0 \<le> i \<and> i < int (length light)) \<Longrightarrow> lightAt light i = 0"
  unfolding lightAt_def ta_get_def by (simp only: if_False option.case)

lemma lightAt_inside:
  "0 \<le> i \<Longrightarrow> i < int (length light) \<Longrightarrow> lightAt light i = int (unat (light ! nat i))"
  by (simp add: lightAt_def ta_get_def)

lemma lightAt_ta_set:
  "lightAt (ta_set light i v) j =
     (if j = i \<and> 0 \<le> i \<and> i < int (length light)
      then int (unat (word_of_int v :: byte)) else lightAt light j)"
  by (auto simp add: lightAt_def ta_get_def ta_set_def nat_eq_iff)

subsection \<open>A measure that every iteration lowers\<close>

text \<open>
  The measure: \<open>sunRoom\<close> and \<open>blkRoom\<close> add up, over the light array, how far each
  nibble is below 15.  A queue entry whose index lies inside the light array weighs 7,
  one outside weighs 1 (it reads level 0 and visits nothing).
\<close>

definition sunRoom :: "byte list \<Rightarrow> nat" where
  "sunRoom light = sum_list (map (\<lambda>b. 15 - unat b div 16) light)"

definition blkRoom :: "byte list \<Rightarrow> nat" where
  "blkRoom light = sum_list (map (\<lambda>b. 15 - unat b mod 16) light)"

definition entryWeight :: "nat \<Rightarrow> voxel \<Rightarrow> nat" where
  "entryWeight n e = (case e of (x, y, z) \<Rightarrow>
     if 0 \<le> blockIndex x y z \<and> blockIndex x y z < int n then 7 else 1)"

definition queueWeight :: "nat \<Rightarrow> voxel list \<Rightarrow> nat" where
  "queueWeight n q = sum_list (map (entryWeight n) q)"

definition sunMeasure :: "byte list \<times> voxel list \<Rightarrow> nat" where
  "sunMeasure s = 7 * sunRoom (fst s) + queueWeight (length (fst s)) (snd s)"

definition blkMeasure :: "byte list \<times> voxel list \<Rightarrow> nat" where
  "blkMeasure s = 7 * blkRoom (fst s) + queueWeight (length (fst s)) (snd s)"

lemma room_update:
  fixes f :: "'a \<Rightarrow> nat"
  assumes "i < length xs" "f y < f (xs ! i)"
  shows "sum_list (map f (xs[i := y])) < sum_list (map f xs)"
proof -
  have "f (xs ! i) \<le> sum_list (map f xs)"
    using assms(1) by (intro member_le_sum_list) auto
  moreover have "sum_list (map f (xs[i := y])) = sum_list (map f xs) + f y - f (xs ! i)"
    using assms(1) by (simp add: map_update sum_list_update)
  ultimately show ?thesis
    using assms(2) by simp
qed

lemma queueWeight_append [simp]:
  "queueWeight n (q @ [e]) = queueWeight n q + entryWeight n e"
  by (simp add: queueWeight_def)

lemma queueWeight_Cons [simp]:
  "queueWeight n (e # q) = entryWeight n e + queueWeight n q"
  by (simp add: queueWeight_def)

lemma sunRoom_write:
  assumes i: "0 \<le> i" "i < int (length light)"
    and n: "drop_bit 4 (lightAt light i) < n" "n \<le> 15"
  shows "sunRoom (ta_set light i (push_bit 4 n OR (lightAt light i AND 0x0F))) < sunRoom light"
proof -
  define u where "u = unat (light ! nat i)"
  have l: "lightAt light i = int u"
    using i by (simp add: lightAt_inside u_def)
  have old: "int (u div 16) < n"
    using n(1) by (simp add: l drop_bit_eq_div zdiv_int)
  then have n0: "0 \<le> n" by linarith
  have p: "push_bit 4 n OR (lightAt light i AND 0x0F) = 16 * n + int u mod 16"
    by (simp add: sun_pack l)
  define w :: byte where "w = word_of_int (16 * n + int u mod 16)"
  have "unat w = nat (16 * n + int u mod 16)"
    unfolding w_def using n0 n(2) by (intro unat_byte_of_int) simp_all
  also have "\<dots> = 16 * nat n + u mod 16"
    using n0 by (simp add: nat_add_distrib nat_mult_distrib nat_mod_distrib)
  finally have new: "unat w div 16 = nat n"
    by simp
  have "15 - unat w div 16 < 15 - unat (light ! nat i) div 16"
    unfolding new u_def [symmetric] using old n(2) by linarith
  moreover have "nat i < length light"
    using i by simp
  ultimately have "sum_list (map (\<lambda>b. 15 - unat b div 16) (light[nat i := w]))
     < sum_list (map (\<lambda>b. 15 - unat b div 16) light)"
    using room_update [of "nat i" light "\<lambda>b. 15 - unat b div 16" w] by blast
  then show ?thesis
    unfolding sunRoom_def ta_set_def p w_def using i by (simp only: if_True simp_thms)
qed

lemma blkRoom_write:
  assumes i: "0 \<le> i" "i < int (length light)"
    and n: "lightAt light i AND 0x0F < n" "n \<le> 15"
  shows "blkRoom (ta_set light i ((lightAt light i AND 0xF0) OR n)) < blkRoom light"
proof -
  define u where "u = unat (light ! nat i)"
  have l: "lightAt light i = int u"
    using i by (simp add: lightAt_inside u_def)
  have old: "int (u mod 16) < n"
    using n(1) by (simp add: l and15 zmod_int)
  then have n0: "0 \<le> n" by linarith
  have r: "0 \<le> int u" "int u < 256"
    by (simp_all add: u_def uint_byte_less)
  have p: "(lightAt light i AND 0xF0) OR n = 16 * (int u div 16) + n"
    using blk_pack [OF n0 n(2) r] by (simp add: l)
  define w :: byte where "w = word_of_int (16 * (int u div 16) + n)"
  have "int u div 16 \<le> 15"
    using r by simp
  then have "unat w = nat (16 * (int u div 16) + n)"
    unfolding w_def using n0 n(2) r by (intro unat_byte_of_int) simp_all
  also have "\<dots> = 16 * (u div 16) + nat n"
    using n0 by (simp add: nat_add_distrib nat_mult_distrib nat_div_distrib)
  finally have new: "unat w mod 16 = nat n"
    using n(2) n0 by simp
  have "15 - unat w mod 16 < 15 - unat (light ! nat i) mod 16"
    unfolding new u_def [symmetric] using old n(2) by linarith
  moreover have "nat i < length light"
    using i by simp
  ultimately have "sum_list (map (\<lambda>b. 15 - unat b mod 16) (light[nat i := w]))
     < sum_list (map (\<lambda>b. 15 - unat b mod 16) light)"
    using room_update [of "nat i" light "\<lambda>b. 15 - unat b mod 16" w] by blast
  then show ?thesis
    unfolding blkRoom_def ta_set_def p w_def using i by (simp only: if_True simp_thms)
qed


lemma entryWeight_cases:
  "entryWeight n (x, y, z) =
     (if 0 \<le> blockIndex x y z \<and> blockIndex x y z < int n then 7 else 1)"
  by (simp add: entryWeight_def)

text \<open>
  One visit of a neighbour adds at most 1 to the measure: a write inside the array lowers
  the room by at least one (worth 7) and queues an entry of weight 7; a write outside the
  array stores nothing and queues an entry of weight 1.
\<close>

lemma sunVisit_measure:
  assumes "level \<le> 15"
  shows "length (fst (sunVisit blocks isT sx sy sz level d s)) = length (fst s) \<and>
         sunMeasure (sunVisit blocks isT sx sy sz level d s) \<le> sunMeasure s + 1"
proof -
  obtain light q where s: "s = (light, q)" by (cases s)
  define ni where "ni = blockIndex (sx + DX d) (sy + DY d) (sz + DZ d)"
  define newLevel where "newLevel = (if DY d = - 1 \<and> level = 15 then 15 else level - 1)"
  have n15: "newLevel \<le> 15"
    using assms by (simp add: newLevel_def)
  show ?thesis
  proof (cases "inChunk (sx + DX d) (sy + DY d) (sz + DZ d) \<and> transparentAt blocks isT ni
      \<and> \<not> newLevel \<le> 0 \<and> newLevel > drop_bit 4 (lightAt light ni)")
    case False
    then have "sunVisit blocks isT sx sy sz level d s = s"
      unfolding sunVisit_def s Let_def ni_def newLevel_def by auto
    then show ?thesis by simp
  next
    case True
    then have v: "sunVisit blocks isT sx sy sz level d s =
        (ta_set light ni (push_bit 4 newLevel OR (lightAt light ni AND 0x0F)),
         q @ [(sx + DX d, sy + DY d, sz + DZ d)])"
      unfolding sunVisit_def s Let_def ni_def newLevel_def by auto
    show ?thesis
    proof (cases "0 \<le> ni \<and> ni < int (length light)")
      case inside: True
      from True inside n15 have "sunRoom (ta_set light ni
          (push_bit 4 newLevel OR (lightAt light ni AND 0x0F))) < sunRoom light"
        by (intro sunRoom_write) auto
      then show ?thesis
        using inside unfolding v unfolding s sunMeasure_def
        by (simp add: entryWeight_cases ni_def [symmetric])
    next
      case outside: False
      then have "ta_set light ni (push_bit 4 newLevel OR (lightAt light ni AND 0x0F)) = light"
        by (auto simp add: ta_set_def)
      then show ?thesis
        using outside unfolding v unfolding s sunMeasure_def
        by (simp add: entryWeight_cases ni_def [symmetric])
    qed
  qed
qed

lemma sunVisit_dark:
  assumes "level \<le> 1"
  shows "sunVisit blocks isT sx sy sz level d s = s"
  using assms by (cases s) (simp add: sunVisit_def Let_def)

lemma blkVisit_measure:
  assumes "level \<le> 15"
  shows "length (fst (blkVisit blocks isT bx by bz level d s)) = length (fst s) \<and>
         blkMeasure (blkVisit blocks isT bx by bz level d s) \<le> blkMeasure s + 1"
proof -
  obtain light q where s: "s = (light, q)" by (cases s)
  define ni where "ni = blockIndex (bx + DX d) (by + DY d) (bz + DZ d)"
  show ?thesis
  proof (cases "inChunk (bx + DX d) (by + DY d) (bz + DZ d) \<and> transparentAt blocks isT ni
      \<and> \<not> level - 1 \<le> 0 \<and> level - 1 > (lightAt light ni AND 0x0F)")
    case False
    then have "blkVisit blocks isT bx by bz level d s = s"
      unfolding blkVisit_def s Let_def ni_def by auto
    then show ?thesis by simp
  next
    case True
    then have v: "blkVisit blocks isT bx by bz level d s =
        (ta_set light ni ((lightAt light ni AND 0xF0) OR (level - 1)),
         q @ [(bx + DX d, by + DY d, bz + DZ d)])"
      unfolding blkVisit_def s Let_def ni_def by auto
    show ?thesis
    proof (cases "0 \<le> ni \<and> ni < int (length light)")
      case inside: True
      from True inside assms have "blkRoom (ta_set light ni
          ((lightAt light ni AND 0xF0) OR (level - 1))) < blkRoom light"
        by (intro blkRoom_write) auto
      then show ?thesis
        using inside unfolding v unfolding s blkMeasure_def
        by (simp add: entryWeight_cases ni_def [symmetric])
    next
      case outside: False
      then have "ta_set light ni ((lightAt light ni AND 0xF0) OR (level - 1)) = light"
        by (auto simp add: ta_set_def)
      then show ?thesis
        using outside unfolding v unfolding s blkMeasure_def
        by (simp add: entryWeight_cases ni_def [symmetric])
    qed
  qed
qed

lemma blkVisit_dark:
  assumes "level \<le> 1"
  shows "blkVisit blocks isT bx by bz level d s = s"
  using assms by (cases s) (simp add: blkVisit_def Let_def)

lemma fold_measure:
  fixes m :: "'s \<Rightarrow> nat"
  assumes "\<And>d s. len (f d s) = len s \<and> m (f d s) \<le> m s + 1"
  shows "len (fold f ds s) = len s \<and> m (fold f ds s) \<le> m s + length ds"
proof (induction ds arbitrary: s)
  case Nil
  show ?case by simp
next
  case (Cons d ds)
  from Cons.IH [of "f d s"] assms [of d s] show ?case by simp
qed

lemma fold_same: "(\<And>d s. f d s = s) \<Longrightarrow> fold f ds s = s"
  by (induction ds) simp_all

lemma sun_level: "drop_bit 4 (lightAt light i) \<le> 15"
proof -
  have "lightAt light i div 16 \<le> 255 div 16"
    using lightAt_range [of light i] by (intro zdiv_mono1) simp_all
  then show ?thesis
    by (simp add: drop_bit_eq_div)
qed

lemma blk_level: "lightAt light i AND 0x0F \<le> 15"
  by (simp add: and15)

lemma sunStep_measure:
  "sunMeasure (sunStep blocks isT e (light, rest)) < sunMeasure (light, e # rest)"
proof -
  obtain sx sy sz where e: "e = (sx, sy, sz)" by (cases e)
  define level where "level = drop_bit 4 (lightAt light (blockIndex sx sy sz))"
  have st: "sunStep blocks isT e (light, rest)
      = fold (sunVisit blocks isT sx sy sz level) [0..<6] (light, rest)"
    by (simp add: sunStep_def e level_def)
  show ?thesis
  proof (cases "0 \<le> blockIndex sx sy sz \<and> blockIndex sx sy sz < int (length light)")
    case True
    have "level \<le> 15" unfolding level_def by (rule sun_level)
    from fold_measure [of "\<lambda>s. length (fst s)" "sunVisit blocks isT sx sy sz level" sunMeasure,
        OF sunVisit_measure [OF this], of "[0..<6]" "(light, rest)"]
    have "sunMeasure (sunStep blocks isT e (light, rest)) \<le> sunMeasure (light, rest) + 6"
      by (simp add: st)
    also have "\<dots> < sunMeasure (light, e # rest)"
      using True by (simp add: sunMeasure_def e entryWeight_cases)
    finally show ?thesis .
  next
    case False
    then have "level = 0"
      by (simp add: level_def lightAt_outside)
    then have "sunStep blocks isT e (light, rest) = (light, rest)"
      unfolding st by (intro fold_same sunVisit_dark) simp
    then show ?thesis
      by (simp add: sunMeasure_def e entryWeight_cases)
  qed
qed

lemma blkStep_measure:
  "blkMeasure (blkStep blocks isT e (light, rest)) < blkMeasure (light, e # rest)"
proof -
  obtain bx "by" bz where e: "e = (bx, by, bz)" by (cases e)
  define level where "level = lightAt light (blockIndex bx by bz) AND 0x0F"
  have st: "blkStep blocks isT e (light, rest)
      = fold (blkVisit blocks isT bx by bz level) [0..<6] (light, rest)"
    by (simp add: blkStep_def e level_def)
  show ?thesis
  proof (cases "0 \<le> blockIndex bx by bz \<and> blockIndex bx by bz < int (length light)")
    case True
    have "level \<le> 15" unfolding level_def by (rule blk_level)
    from fold_measure [of "\<lambda>s. length (fst s)" "blkVisit blocks isT bx by bz level" blkMeasure,
        OF blkVisit_measure [OF this], of "[0..<6]" "(light, rest)"]
    have "blkMeasure (blkStep blocks isT e (light, rest)) \<le> blkMeasure (light, rest) + 6"
      by (simp add: st)
    also have "\<dots> < blkMeasure (light, e # rest)"
      using True by (simp add: blkMeasure_def e entryWeight_cases)
    finally show ?thesis .
  next
    case False
    then have "level = 0"
      by (simp add: level_def lightAt_outside)
    then have "blkStep blocks isT e (light, rest) = (light, rest)"
      unfolding st by (intro fold_same blkVisit_dark) simp
    then show ?thesis
      by (simp add: blkMeasure_def e entryWeight_cases)
  qed
qed

text \<open>
  A queue loop whose body lowers a measure ends, and an invariant of the body holds of
  the state it ends in.
\<close>

lemma queueLoop_total:
  fixes m :: "byte list \<times> voxel list \<Rightarrow> nat"
  assumes dec: "\<And>e rest light. m (body e (light, rest)) < m (light, e # rest)"
    and inv: "\<And>e rest light. I (light, e # rest) \<Longrightarrow> I (body e (light, rest))"
  shows "I (light, q) \<Longrightarrow> \<exists>light'. queueLoop body q light = Some light' \<and> I (light', [])"
proof (induction "m (light, q)" arbitrary: light q rule: less_induct)
  case less
  show ?case
  proof (cases q)
    case Nil
    with less.prems show ?thesis
      by (subst queueLoop.simps) simp
  next
    case (Cons e rest)
    obtain l' q' where b: "body e (light, rest) = (l', q')"
      by (cases "body e (light, rest)")
    have "m (l', q') < m (light, q)"
      using dec [of e light rest] by (simp add: b Cons)
    moreover have "I (l', q')"
      using inv [of light e rest] less.prems by (simp add: b Cons)
    ultimately obtain r where "queueLoop body q' l' = Some r" "I (r, [])"
      using less.hyps by blast
    then show ?thesis
      by (subst queueLoop.simps) (simp add: Cons b)
  qed
qed

lemma sunLoop_total: "\<exists>light'. queueLoop (sunStep blocks isT) q light = Some light'"
  using queueLoop_total [of sunMeasure "sunStep blocks isT" "\<lambda>s. True" light q]
  by (simp add: sunStep_measure)

lemma blkLoop_total: "\<exists>light'. queueLoop (blkStep blocks isT) q light = Some light'"
  using queueLoop_total [of blkMeasure "blkStep blocks isT" "\<lambda>s. True" light q]
  by (simp add: blkStep_measure)

lemma calculateLight_total: "\<exists>out. calculateLight blocks light isT emissions = Some out"
proof -
  obtain l2 where "queueLoop (sunStep blocks isT)
      (sunSeeds blocks isT (columnSunlight blocks isT (map (\<lambda>b. 0) light)))
      (columnSunlight blocks isT (map (\<lambda>b. 0) light)) = Some l2"
    using sunLoop_total by blast
  then show ?thesis
    using blkLoop_total
    by (simp add: calculateLight_def Let_def split: prod.splits)
qed

text \<open>
  Claim C10.  Both flood-fill loops end, from every queue and every light array, and so
  \<open>calculateLight\<close> returns on every input: each iteration of either loop strictly lowers
  a measure that counts how far the nibbles are below 15 (weighted 7) plus the weights of
  the queued entries.
\<close>

theorem flood_fills_terminate:
  "(\<exists>light'. queueLoop (sunStep blocks isT) sunQ light = Some light') \<and>
   (\<exists>light'. queueLoop (blkStep blocks isT) blkQ light = Some light') \<and>
   (\<exists>out. calculateLight blocks light isT emissions = Some out) \<and>
   sunMeasure (sunStep blocks isT e (light, rest)) < sunMeasure (light, e # rest) \<and>
   blkMeasure (blkStep blocks isT e (light, rest)) < blkMeasure (light, e # rest)"
  using sunLoop_total [of blocks isT sunQ light] blkLoop_total [of blocks isT blkQ light]
    calculateLight_total [of blocks light isT emissions]
    sunStep_measure [of blocks isT e light rest] blkStep_measure [of blocks isT e light rest]
  by blast

section \<open>Light monotonicity\<close>

subsection \<open>Light levels, sources and paths\<close>

definition voxelIndex :: "voxel \<Rightarrow> int" where
  "voxelIndex v = (case v of (x, y, z) \<Rightarrow> blockIndex x y z)"

definition inChunkV :: "voxel \<Rightarrow> bool" where
  "inChunkV v = (case v of (x, y, z) \<Rightarrow> inChunk x y z)"

text \<open>The two nibbles of a voxel: \<open>light[i] >> 4\<close> and \<open>light[i] & 0x0F\<close>.\<close>

definition sunLevel :: "byte list \<Rightarrow> voxel \<Rightarrow> int" where
  "sunLevel light v = drop_bit 4 (lightAt light (voxelIndex v))"

definition blkLevel :: "byte list \<Rightarrow> voxel \<Rightarrow> int" where
  "blkLevel light v = lightAt light (voxelIndex v) AND 0x0F"

definition transparentV :: "byte list \<Rightarrow> bool list \<Rightarrow> voxel \<Rightarrow> bool" where
  "transparentV blocks isTransparent v = transparentAt blocks isTransparent (voxelIndex v)"

text \<open>\<open>adjacent u v\<close>: \<open>v\<close> is one of the six neighbours of \<open>u\<close>.\<close>

definition adjacent :: "voxel \<Rightarrow> voxel \<Rightarrow> bool" where
  "adjacent u v = (case u of (x, y, z) \<Rightarrow>
     list_ex (\<lambda>d. v = (x + DX d, y + DY d, z + DZ d)) [0..<6])"

text \<open>
  The sources of sunlight are the voxels open to the sky: the voxel and all voxels above
  it in its column are transparent.  The sources of block light are the voxels whose
  block has a positive emission.
\<close>

definition skyOpen :: "byte list \<Rightarrow> bool list \<Rightarrow> voxel \<Rightarrow> bool" where
  "skyOpen blocks isTransparent v = (case v of (x, y, z) \<Rightarrow>
     list_all (\<lambda>y'. transparentAt blocks isTransparent (blockIndex x (int y') z))
       [nat y..<nat CHUNK_HEIGHT])"

definition emitter :: "byte list \<Rightarrow> int list \<Rightarrow> voxel \<Rightarrow> bool" where
  "emitter blocks emissions v \<longleftrightarrow> 0 < emissionAt blocks emissions (voxelIndex v)"

text \<open>
  A path along which light can travel, listed from its end back to its start: it starts
  at a source inside the chunk, and every further voxel is inside the chunk, transparent
  and a neighbour of the voxel before it.
\<close>

fun lightPath :: "(voxel \<Rightarrow> bool) \<Rightarrow> (voxel \<Rightarrow> bool) \<Rightarrow> voxel list \<Rightarrow> bool" where
  "lightPath src tr [] = False"
| "lightPath src tr [v] = (inChunkV v \<and> src v)"
| "lightPath src tr (v # u # p) = (inChunkV v \<and> tr v \<and> adjacent u v \<and> lightPath src tr (u # p))"

text \<open>\<open>B\<close> is reachable from a source only through \<open>A\<close>: every path to \<open>B\<close> visits \<open>A\<close>.\<close>

definition reachableOnlyThrough ::
  "(voxel \<Rightarrow> bool) \<Rightarrow> (voxel \<Rightarrow> bool) \<Rightarrow> voxel \<Rightarrow> voxel \<Rightarrow> bool" where
  "reachableOnlyThrough src tr A B \<longleftrightarrow> (\<forall>p. lightPath src tr (B # p) \<longrightarrow> A \<in> set (B # p))"

text \<open>
  The invariant of a flood fill: every lit voxel is the end of a path on which no voxel
  is darker than it.
\<close>

definition litFrom :: "(voxel \<Rightarrow> bool) \<Rightarrow> (voxel \<Rightarrow> bool) \<Rightarrow> (voxel \<Rightarrow> int) \<Rightarrow> bool" where
  "litFrom src tr val \<longleftrightarrow>
     (\<forall>B. inChunkV B \<and> 0 < val B \<longrightarrow>
        (\<exists>p. lightPath src tr (B # p) \<and> (\<forall>C \<in> set p. val B \<le> val C)))"

lemma voxelIndex_inj:
  assumes "inChunkV u" "inChunkV v" "voxelIndex u = voxelIndex v"
  shows "u = v"
proof -
  obtain x y z where u: "u = (x, y, z)" by (cases u)
  obtain x' y' z' where v: "v = (x', y', z')" by (cases v)
  from assms have b: "0 \<le> x" "x < 16" "0 \<le> y" "y < 256" "0 \<le> z" "z < 16"
      "0 \<le> x'" "x' < 16" "0 \<le> y'" "y' < 256" "0 \<le> z'" "z' < 16"
    and e: "4096 * x + 256 * z + y = 4096 * x' + 256 * z' + y'"
    by (simp_all add: u v inChunkV_def inChunk_def voxelIndex_def blockIndex_def
        CHUNK_SIZE_def CHUNK_HEIGHT_def algebra_simps)
  have "x = x'" using b e by linarith
  moreover have "z = z'" using b e \<open>x = x'\<close> by linarith
  moreover have "y = y'" using b e \<open>x = x'\<close> \<open>z = z'\<close> by linarith
  ultimately show ?thesis by (simp add: u v)
qed

lemma lightPath_inChunk: "lightPath src tr p \<Longrightarrow> C \<in> set p \<Longrightarrow> inChunkV C"
  by (induction src tr p rule: lightPath.induct) auto

lemma lightPath_source: "lightPath src tr p \<Longrightarrow> src (last p) \<and> last p \<in> set p"
  by (induction src tr p rule: lightPath.induct) auto

lemma litFrom_sources:
  assumes "\<And>B. inChunkV B \<Longrightarrow> 0 < val B \<Longrightarrow> src B"
  shows "litFrom src tr val"
  unfolding litFrom_def
proof (intro allI impI)
  fix B assume "inChunkV B \<and> 0 < val B"
  then have "lightPath src tr (B # [])" using assms by simp
  then show "\<exists>p. lightPath src tr (B # p) \<and> (\<forall>C \<in> set p. val B \<le> val C)"
    by (intro exI [of _ "[]"]) simp
qed

lemma litFromD:
  "litFrom src tr val \<Longrightarrow> inChunkV B \<Longrightarrow> 0 < val B \<Longrightarrow>
   \<exists>p. lightPath src tr (B # p) \<and> (\<forall>C \<in> set p. val B \<le> val C)"
  unfolding litFrom_def by blast

text \<open>
  A write that raises the value of a transparent neighbour \<open>n\<close> of \<open>e\<close> to at most the
  value of \<open>e\<close> keeps the invariant.
\<close>

lemma litFrom_write:
  assumes inv: "litFrom src tr val"
    and e: "inChunkV e"
    and n: "inChunkV n" "tr n" "adjacent e n"
    and lvl: "val' n \<le> val e"
    and same: "\<And>C. inChunkV C \<Longrightarrow> C \<noteq> n \<Longrightarrow> val' C = val C"
    and up: "val n \<le> val' n"
  shows "litFrom src tr val'"
  unfolding litFrom_def
proof (intro allI impI)
  fix B assume B: "inChunkV B \<and> 0 < val' B"
  have mono: "val C \<le> val' C" if "inChunkV C" for C
    using same [OF that] up by (cases "C = n") auto
  show "\<exists>p. lightPath src tr (B # p) \<and> (\<forall>C \<in> set p. val' B \<le> val' C)"
  proof (cases "B = n")
    case True
    with B lvl have "0 < val e" by simp
    from litFromD [OF inv e this]
    obtain p where p: "lightPath src tr (e # p)" "\<forall>C \<in> set p. val e \<le> val C"
      by blast
    have "lightPath src tr (n # e # p)"
      using p(1) n by simp
    moreover have "val' n \<le> val' C" if "C \<in> set (e # p)" for C
    proof -
      have "inChunkV C" using lightPath_inChunk [OF p(1) that] .
      then have "val C \<le> val' C" by (rule mono)
      moreover have "val e \<le> val C" using that p(2) by auto
      ultimately show ?thesis using lvl by linarith
    qed
    ultimately show ?thesis
      unfolding True by blast
  next
    case False
    with B same have v: "val' B = val B" by simp
    from B v have "inChunkV B" "0 < val B" by simp_all
    from litFromD [OF inv this]
    obtain p where p: "lightPath src tr (B # p)" "\<forall>C \<in> set p. val B \<le> val C"
      by blast
    have "val' B \<le> val' C" if "C \<in> set p" for C
    proof -
      have "inChunkV C" using lightPath_inChunk [OF p(1)] that by simp
      then have "val C \<le> val' C" by (rule mono)
      with p(2) that show ?thesis unfolding v by fastforce
    qed
    with p(1) show ?thesis by blast
  qed
qed

text \<open>What the invariant gives for the claim.\<close>

lemma litFrom_only_through:
  assumes "litFrom src tr val" and "inChunkV B" and "reachableOnlyThrough src tr A B"
    and "0 \<le> val A"
  shows "val B \<le> val A"
proof (cases "0 < val B")
  case True
  from litFromD [OF assms(1,2) this]
  obtain p where p: "lightPath src tr (B # p)" "\<forall>C \<in> set p. val B \<le> val C"
    by blast
  from assms(3) p(1) have "A \<in> set (B # p)"
    unfolding reachableOnlyThrough_def by blast
  with p(2) show ?thesis by auto
next
  case False
  with assms(4) show ?thesis by simp
qed


subsection \<open>What one write stores\<close>

lemma uint_byte_of_int: "0 \<le> k \<Longrightarrow> k < 256 \<Longrightarrow> uint (word_of_int k :: byte) = k"
  by (simp add: uint_word_of_int take_bit_int_eq_self take_bit_eq_mod)

lemma lightAt_ta_set_small:
  assumes "0 \<le> v" "v < 256"
  shows "lightAt (ta_set light i v) j =
     (if j = i \<and> 0 \<le> i \<and> i < int (length light) then v else lightAt light j)"
  using assms by (simp add: lightAt_ta_set uint_byte_of_int)

lemma lightAt_sun_write:
  assumes "0 \<le> n" "n \<le> 15"
  shows "lightAt (ta_set light i (push_bit 4 n OR (lightAt light i AND 0x0F))) j =
     (if j = i \<and> 0 \<le> i \<and> i < int (length light)
      then 16 * n + lightAt light i mod 16 else lightAt light j)"
proof -
  have "0 \<le> 16 * n + lightAt light i mod 16" "16 * n + lightAt light i mod 16 < 256"
    using assms by simp_all
  then show ?thesis
    unfolding sun_pack by (rule lightAt_ta_set_small)
qed

lemma lightAt_blk_write:
  assumes "0 \<le> n" "n \<le> 15"
  shows "lightAt (ta_set light i ((lightAt light i AND 0xF0) OR n)) j =
     (if j = i \<and> 0 \<le> i \<and> i < int (length light)
      then 16 * (lightAt light i div 16) + n else lightAt light j)"
proof -
  have r: "0 \<le> lightAt light i" "lightAt light i < 256"
    using lightAt_range [of light i] by simp_all
  have "lightAt light i div 16 \<le> 255 div 16"
    using r by (intro zdiv_mono1) simp_all
  then have "0 \<le> 16 * (lightAt light i div 16) + n" "16 * (lightAt light i div 16) + n < 256"
    using assms r by simp_all
  then show ?thesis
    unfolding blk_pack [OF assms r] by (rule lightAt_ta_set_small)
qed

lemma nibbles_of_sum:
  assumes "0 \<le> m" "m < 16"
  shows "drop_bit 4 (16 * n + m) = (n::int)" and "(16 * n + m) AND 15 = m"
  using assms by (simp_all add: drop_bit_eq_div and15)

lemma fold_invariant:
  assumes "\<And>d s. d \<in> set ds \<Longrightarrow> P s \<Longrightarrow> P (f d s)"
  shows "P s \<Longrightarrow> P (fold f ds s)"
  using assms by (induction ds arbitrary: s) auto

lemma forXZ_invariant:
  assumes "\<And>x z s. 0 \<le> x \<Longrightarrow> x < CHUNK_SIZE \<Longrightarrow> 0 \<le> z \<Longrightarrow> z < CHUNK_SIZE \<Longrightarrow> P s
      \<Longrightarrow> P (body x z s)"
  shows "P s \<Longrightarrow> P (forXZ body s)"
  unfolding forXZ_def
  by (intro fold_invariant [where P = P]) (auto intro: assms)

lemma voxelIndex_simp [simp]: "voxelIndex (x, y, z) = blockIndex x y z"
  by (simp add: voxelIndex_def)

lemma inChunkV_simp [simp]: "inChunkV (x, y, z) = inChunk x y z"
  by (simp add: inChunkV_def)

lemma adjacentI: "d < 6 \<Longrightarrow> adjacent (x, y, z) (x + DX d, y + DY d, z + DZ d)"
  unfolding adjacent_def list_ex_iff by (simp only: prod.case) (use atLeast_upt in blast)

subsection \<open>The sunlight flood fill keeps the invariant\<close>

definition sunInv ::
  "byte list \<Rightarrow> bool list \<Rightarrow> byte list \<times> voxel list \<Rightarrow> bool" where
  "sunInv blocks isT s \<longleftrightarrow>
     litFrom (skyOpen blocks isT) (transparentV blocks isT) (sunLevel (fst s)) \<and>
     list_all inChunkV (snd s) \<and>
     (\<forall>i. lightAt (fst s) i AND 0x0F = 0)"

lemma sunVisit_cases:
  obtains (same) "sunVisit blocks isT sx sy sz level d (light, q) = (light, q)"
  | (stored) newLevel where
      "inChunk (sx + DX d) (sy + DY d) (sz + DZ d)"
      "transparentAt blocks isT (blockIndex (sx + DX d) (sy + DY d) (sz + DZ d))"
      "0 < newLevel" "newLevel \<le> level \<or> newLevel \<le> 15" "level \<le> 15 \<Longrightarrow> newLevel \<le> level"
      "drop_bit 4 (lightAt light (blockIndex (sx + DX d) (sy + DY d) (sz + DZ d))) < newLevel"
      "sunVisit blocks isT sx sy sz level d (light, q) =
         (ta_set light (blockIndex (sx + DX d) (sy + DY d) (sz + DZ d))
            (push_bit 4 newLevel OR
               (lightAt light (blockIndex (sx + DX d) (sy + DY d) (sz + DZ d)) AND 0x0F)),
          q @ [(sx + DX d, sy + DY d, sz + DZ d)])"
proof -
  define newLevel where "newLevel = (if DY d = - 1 \<and> level = 15 then 15 else level - 1)"
  show thesis
  proof (cases "inChunk (sx + DX d) (sy + DY d) (sz + DZ d) \<and>
      transparentAt blocks isT (blockIndex (sx + DX d) (sy + DY d) (sz + DZ d)) \<and>
      \<not> newLevel \<le> 0 \<and>
      newLevel > drop_bit 4 (lightAt light (blockIndex (sx + DX d) (sy + DY d) (sz + DZ d)))")
    case False
    then have "sunVisit blocks isT sx sy sz level d (light, q) = (light, q)"
      unfolding sunVisit_def Let_def newLevel_def by auto
    then show thesis by (rule same)
  next
    case True
    then have "sunVisit blocks isT sx sy sz level d (light, q) =
         (ta_set light (blockIndex (sx + DX d) (sy + DY d) (sz + DZ d))
            (push_bit 4 newLevel OR
               (lightAt light (blockIndex (sx + DX d) (sy + DY d) (sz + DZ d)) AND 0x0F)),
          q @ [(sx + DX d, sy + DY d, sz + DZ d)])"
      unfolding sunVisit_def Let_def newLevel_def by auto
    moreover have "newLevel \<le> level \<or> newLevel \<le> 15" "level \<le> 15 \<Longrightarrow> newLevel \<le> level"
      by (auto simp add: newLevel_def)
    ultimately show thesis
      using True by (intro stored [of newLevel]) auto
  qed
qed


lemma ta_set_outside: "\<not> (0 \<le> i \<and> i < int (length light)) \<Longrightarrow> ta_set light i v = light"
  by (auto simp add: ta_set_def)

lemma sunVisit_inv:
  assumes inv: "sunInv blocks isT (light, q)"
    and e: "inChunk sx sy sz"
    and lvl: "level \<le> sunLevel light (sx, sy, sz)" "level \<le> 15"
    and d: "d < 6"
  shows "sunInv blocks isT (sunVisit blocks isT sx sy sz level d (light, q)) \<and>
         level \<le> sunLevel (fst (sunVisit blocks isT sx sy sz level d (light, q))) (sx, sy, sz)"
proof (cases rule: sunVisit_cases [of blocks isT sx sy sz level d light q])
  case same
  with inv lvl show ?thesis by simp
next
  case (stored newLevel)
  define n where "n = (sx + DX d, sy + DY d, sz + DZ d)"
  define ni where "ni = blockIndex (sx + DX d) (sy + DY d) (sz + DZ d)"
  define light' where "light' = ta_set light ni (push_bit 4 newLevel OR (lightAt light ni AND 0x0F))"
  have v: "sunVisit blocks isT sx sy sz level d (light, q) = (light', q @ [n])"
    using stored(7) by (simp add: n_def ni_def light'_def)
  have nl: "0 \<le> newLevel" "newLevel \<le> 15" "newLevel \<le> level"
    using stored(3,5) lvl(2) by simp_all
  have n: "inChunkV n" "transparentV blocks isT n" "adjacent (sx, sy, sz) n" "voxelIndex n = ni"
    using stored(1,2) adjacentI [OF d, of sx sy sz]
    by (simp_all add: n_def ni_def transparentV_def)
  have q: "list_all inChunkV (q @ [n])"
    using inv n(1) by (simp add: sunInv_def)
  show ?thesis
  proof (cases "0 \<le> ni \<and> ni < int (length light)")
    case False
    then have "light' = light"
      unfolding light'_def by (rule ta_set_outside)
    with inv lvl q show ?thesis
      unfolding v by (simp add: sunInv_def)
  next
    case True
    have low: "lightAt light i AND 0x0F = 0" for i
      using inv by (simp add: sunInv_def)
    then have low16: "lightAt light ni mod 16 = 0"
      using and15 [of "lightAt light ni"] by simp
    have at: "lightAt light' j = (if j = ni then 16 * newLevel else lightAt light j)" for j
      unfolding light'_def lightAt_sun_write [OF nl(1,2)] using True low16 by simp
    have other: "sunLevel light' C = sunLevel light C" if "inChunkV C" "C \<noteq> n" for C
    proof -
      have "voxelIndex C \<noteq> ni"
        using voxelIndex_inj [OF that(1) n(1)] that(2) n(4) by auto
      then show ?thesis by (simp add: sunLevel_def at)
    qed
    have new: "sunLevel light' n = newLevel"
      by (simp add: sunLevel_def n(4) at drop_bit_eq_div)
    have old: "sunLevel light n < newLevel"
      using stored(6) by (simp add: sunLevel_def n(4) ni_def)
    have "litFrom (skyOpen blocks isT) (transparentV blocks isT) (sunLevel light')"
    proof (rule litFrom_write [where val = "sunLevel light" and e = "(sx, sy, sz)" and n = n])
      show "litFrom (skyOpen blocks isT) (transparentV blocks isT) (sunLevel light)"
        using inv by (simp add: sunInv_def)
      show "inChunkV (sx, sy, sz)" using e by simp
      show "inChunkV n" "transparentV blocks isT n" "adjacent (sx, sy, sz) n" by (rule n)+
      show "sunLevel light' n \<le> sunLevel light (sx, sy, sz)"
        using new nl(3) lvl(1) by simp
      show "sunLevel light' C = sunLevel light C" if "inChunkV C" "C \<noteq> n" for C
        using that by (rule other)
      show "sunLevel light n \<le> sunLevel light' n"
        using new old by simp
    qed
    moreover have "lightAt light' i AND 0x0F = 0" for i
      using low [of i] nl by (simp add: at and15)
    moreover have "level \<le> sunLevel light' (sx, sy, sz)"
    proof (cases "(sx, sy, sz) = n")
      case True
      then show ?thesis using new nl(3) old lvl(1) by simp
    next
      case False
      with other [of "(sx, sy, sz)"] e lvl(1) show ?thesis by simp
    qed
    ultimately show ?thesis
      unfolding v using q by (simp add: sunInv_def)
  qed
qed

lemma sunStep_inv:
  assumes "sunInv blocks isT (light, e # rest)"
  shows "sunInv blocks isT (sunStep blocks isT e (light, rest))"
proof -
  obtain sx sy sz where e: "e = (sx, sy, sz)" by (cases e)
  define level where "level = drop_bit 4 (lightAt light (blockIndex sx sy sz))"
  have st: "sunStep blocks isT e (light, rest)
      = fold (sunVisit blocks isT sx sy sz level) [0..<6] (light, rest)"
    by (simp add: sunStep_def e level_def)
  have l15: "level \<le> 15" unfolding level_def by (rule sun_level)
  have ine: "inChunk sx sy sz"
    using assms by (simp add: sunInv_def e)
  define P where "P = (\<lambda>s. sunInv blocks isT s \<and> level \<le> sunLevel (fst s) (sx, sy, sz))"
  have "P (light, rest)"
    using assms by (simp add: P_def sunInv_def level_def sunLevel_def)
  then have "P (fold (sunVisit blocks isT sx sy sz level) [0..<6] (light, rest))"
  proof (rule fold_invariant [rotated])
    fix d s assume d: "d \<in> set [0..<6]" and s: "P s"
    obtain l q where lq: "s = (l, q)" by (cases s)
    from s d show "P (sunVisit blocks isT sx sy sz level d s)"
      unfolding P_def lq
      using sunVisit_inv [of blocks isT l q sx sy sz level d] ine l15 by simp
  qed
  then show ?thesis
    by (simp add: st P_def)
qed


subsection \<open>The state before the sunlight flood fill\<close>

text \<open>After the column scan a byte is 0, or it is 0xF0 and belongs to a voxel open to the sky.\<close>

definition columnLit :: "byte list \<Rightarrow> bool list \<Rightarrow> byte list \<Rightarrow> bool" where
  "columnLit blocks isT light \<longleftrightarrow>
     (\<forall>i. lightAt light i = 0 \<or>
          (lightAt light i = 240 \<and>
           (\<exists>v. inChunkV v \<and> skyOpen blocks isT v \<and> voxelIndex v = i)))"

lemma columnScan_lit:
  assumes x: "0 \<le> x" "x < CHUNK_SIZE" and z: "0 \<le> z" "z < CHUNK_SIZE"
  shows "n \<le> nat CHUNK_HEIGHT \<Longrightarrow>
         (\<forall>y'. n \<le> y' \<and> y' < nat CHUNK_HEIGHT \<longrightarrow>
            transparentAt blocks isT (blockIndex x (int y') z)) \<Longrightarrow>
         columnLit blocks isT light \<Longrightarrow>
         columnLit blocks isT (columnScan blocks isT x z n light)"
proof (induction n arbitrary: light)
  case 0
  then show ?case by simp
next
  case (Suc y)
  show ?case
  proof (cases "transparentAt blocks isT (blockIndex x (int y) z)")
    case False
    with Suc.prems(3) show ?thesis by (simp add: Let_def)
  next
    case True
    have above: "\<forall>y'. y \<le> y' \<and> y' < nat CHUNK_HEIGHT \<longrightarrow>
        transparentAt blocks isT (blockIndex x (int y') z)"
    proof (intro allI impI)
      fix y' assume "y \<le> y' \<and> y' < nat CHUNK_HEIGHT"
      then show "transparentAt blocks isT (blockIndex x (int y') z)"
        using Suc.prems(2) True by (cases "y' = y") auto
    qed
    have v: "inChunkV (x, int y, z)" "skyOpen blocks isT (x, int y, z)"
      using x z Suc.prems(1) above
      by (auto simp add: inChunk_def skyOpen_def list_all_iff CHUNK_HEIGHT_def)
    have "columnLit blocks isT (ta_set light (blockIndex x (int y) z) 0xF0)"
      unfolding columnLit_def
    proof
      fix i
      show "lightAt (ta_set light (blockIndex x (int y) z) 0xF0) i = 0 \<or>
          (lightAt (ta_set light (blockIndex x (int y) z) 0xF0) i = 240 \<and>
           (\<exists>v. inChunkV v \<and> skyOpen blocks isT v \<and> voxelIndex v = i))"
      proof (cases "i = blockIndex x (int y) z \<and> 0 \<le> i \<and> i < int (length light)")
        case True
        then have "lightAt (ta_set light (blockIndex x (int y) z) 0xF0) i = 240"
          by (simp add: lightAt_ta_set_small)
        moreover have "voxelIndex (x, int y, z) = i"
          using True by simp
        ultimately show ?thesis using v by blast
      next
        case False
        then have "lightAt (ta_set light (blockIndex x (int y) z) 0xF0) i = lightAt light i"
          by (auto simp add: lightAt_ta_set_small)
        then show ?thesis
          using Suc.prems(3) unfolding columnLit_def by simp
      qed
    qed
    from Suc.IH [OF _ above this] Suc.prems(1) True show ?thesis
      by (simp add: Let_def)
  qed
qed

lemma columnSunlight_lit: "columnLit blocks isT (columnSunlight blocks isT (map (\<lambda>b. 0) light))"
  unfolding columnSunlight_def
proof (rule forXZ_invariant)
  have "lightAt (map (\<lambda>b. 0) light) i = 0" for i
  proof (cases "0 \<le> i \<and> i < int (length light)")
    case True
    then have "nat i < length light" by linarith
    then have "map (\<lambda>b. 0 :: byte) light ! nat i = 0" by (rule nth_map)
    with True show ?thesis by (simp add: lightAt_inside)
  next
    case False
    then show ?thesis by (simp add: lightAt_outside)
  qed
  then show "columnLit blocks isT (map (\<lambda>b. 0) light)"
    by (simp add: columnLit_def)
next
  fix x z s
  assume "0 \<le> x" "x < CHUNK_SIZE" "0 \<le> z" "z < CHUNK_SIZE" "columnLit blocks isT s"
  then show "columnLit blocks isT (columnScan blocks isT x z (nat CHUNK_HEIGHT) s)"
    by (intro columnScan_lit) auto
qed

lemma frontierScan_inChunk:
  assumes x: "0 \<le> x" "x < CHUNK_SIZE" and z: "0 \<le> z" "z < CHUNK_SIZE"
  shows "n \<le> nat CHUNK_HEIGHT \<Longrightarrow> list_all inChunkV q \<Longrightarrow>
         list_all inChunkV (frontierScan blocks isT light x z n foundDark q)"
proof (induction n arbitrary: foundDark q)
  case 0
  then show ?case by simp
next
  case (Suc y)
  have "inChunkV (x, int y, z)"
    using x z Suc.prems(1) by (simp add: inChunk_def)
  with Suc show ?case
    by (simp add: Let_def)
qed

lemma sunSeeds_inChunk: "list_all inChunkV (sunSeeds blocks isT light)"
  unfolding sunSeeds_def
  by (rule forXZ_invariant) (simp_all add: frontierScan_inChunk)

lemma columnLit_sunInv:
  assumes "columnLit blocks isT light" and "list_all inChunkV q"
  shows "sunInv blocks isT (light, q)"
proof -
  have "skyOpen blocks isT B" if "inChunkV B" "0 < sunLevel light B" for B
  proof -
    from that(2) have "lightAt light (voxelIndex B) \<noteq> 0"
      by (auto simp add: sunLevel_def)
    with assms(1) obtain v where "inChunkV v" "skyOpen blocks isT v" "voxelIndex v = voxelIndex B"
      unfolding columnLit_def by blast
    with voxelIndex_inj [OF this(1) that(1)] show ?thesis by simp
  qed
  then have "litFrom (skyOpen blocks isT) (transparentV blocks isT) (sunLevel light)"
    by (rule litFrom_sources)
  moreover have "lightAt light i AND 0x0F = 0" for i
  proof -
    have "lightAt light i = 0 \<or> lightAt light i = 240"
      using assms(1) unfolding columnLit_def by blast
    then show ?thesis by (auto simp add: and15)
  qed
  ultimately show ?thesis
    using assms(2) by (simp add: sunInv_def)
qed


subsection \<open>The block-light flood fill keeps the invariant\<close>

text \<open>
  \<open>sunKept light0 light\<close>: the sun nibbles of \<open>light\<close> are those of \<open>light0\<close>.  The block
  light phase keeps them when no emission exceeds 15.
\<close>

definition sunKept :: "byte list \<Rightarrow> byte list \<Rightarrow> bool" where
  "sunKept light0 light \<longleftrightarrow>
     (\<forall>i. drop_bit 4 (lightAt light i) = drop_bit 4 (lightAt light0 i))"

definition emissionsOk :: "int list \<Rightarrow> bool" where
  "emissionsOk emissions = list_all (\<lambda>e. e \<le> 15) emissions"

definition blkInv ::
  "byte list \<Rightarrow> bool list \<Rightarrow> int list \<Rightarrow> byte list \<Rightarrow> byte list \<times> voxel list \<Rightarrow> bool" where
  "blkInv blocks isT emissions light0 s \<longleftrightarrow>
     litFrom (emitter blocks emissions) (transparentV blocks isT) (blkLevel (fst s)) \<and>
     list_all inChunkV (snd s) \<and>
     (emissionsOk emissions \<longrightarrow> sunKept light0 (fst s))"

lemma blkVisit_cases:
  obtains (same) "blkVisit blocks isT bx by bz level d (light, q) = (light, q)"
  | (stored)
      "inChunk (bx + DX d) (by + DY d) (bz + DZ d)"
      "transparentAt blocks isT (blockIndex (bx + DX d) (by + DY d) (bz + DZ d))"
      "0 < level - 1"
      "lightAt light (blockIndex (bx + DX d) (by + DY d) (bz + DZ d)) AND 0x0F < level - 1"
      "blkVisit blocks isT bx by bz level d (light, q) =
         (ta_set light (blockIndex (bx + DX d) (by + DY d) (bz + DZ d))
            ((lightAt light (blockIndex (bx + DX d) (by + DY d) (bz + DZ d)) AND 0xF0)
               OR (level - 1)),
          q @ [(bx + DX d, by + DY d, bz + DZ d)])"
proof (cases "inChunk (bx + DX d) (by + DY d) (bz + DZ d) \<and>
      transparentAt blocks isT (blockIndex (bx + DX d) (by + DY d) (bz + DZ d)) \<and>
      \<not> level - 1 \<le> 0 \<and>
      level - 1 > (lightAt light (blockIndex (bx + DX d) (by + DY d) (bz + DZ d)) AND 0x0F)")
  case False
  then have "blkVisit blocks isT bx by bz level d (light, q) = (light, q)"
    unfolding blkVisit_def Let_def by auto
  then show thesis by (rule same)
next
  case True
  then have "blkVisit blocks isT bx by bz level d (light, q) =
         (ta_set light (blockIndex (bx + DX d) (by + DY d) (bz + DZ d))
            ((lightAt light (blockIndex (bx + DX d) (by + DY d) (bz + DZ d)) AND 0xF0)
               OR (level - 1)),
          q @ [(bx + DX d, by + DY d, bz + DZ d)])"
    unfolding blkVisit_def Let_def by auto
  then show thesis
    using True by (intro stored) auto
qed

lemma sunKept_trans: "sunKept l0 l \<Longrightarrow> sunKept l l' \<Longrightarrow> sunKept l0 l'"
  by (simp add: sunKept_def)

lemma blkVisit_inv:
  assumes inv: "blkInv blocks isT emissions light0 (light, q)"
    and e: "inChunk bx by bz"
    and lvl: "level \<le> blkLevel light (bx, by, bz)" "level \<le> 15"
    and d: "d < 6"
  shows "blkInv blocks isT emissions light0 (blkVisit blocks isT bx by bz level d (light, q)) \<and>
         level \<le> blkLevel (fst (blkVisit blocks isT bx by bz level d (light, q))) (bx, by, bz)"
proof (cases rule: blkVisit_cases [of blocks isT bx "by" bz level d light q])
  case same
  with inv lvl show ?thesis by simp
next
  case stored
  define n where "n = (bx + DX d, by + DY d, bz + DZ d)"
  define ni where "ni = blockIndex (bx + DX d) (by + DY d) (bz + DZ d)"
  define light' where "light' = ta_set light ni ((lightAt light ni AND 0xF0) OR (level - 1))"
  have v: "blkVisit blocks isT bx by bz level d (light, q) = (light', q @ [n])"
    using stored(5) by (simp add: n_def ni_def light'_def)
  have nl: "0 \<le> level - 1" "level - 1 \<le> 15"
    using stored(3) lvl(2) by simp_all
  have n: "inChunkV n" "transparentV blocks isT n" "adjacent (bx, by, bz) n" "voxelIndex n = ni"
    using stored(1,2) adjacentI [OF d, of bx "by" bz]
    by (simp_all add: n_def ni_def transparentV_def)
  have q: "list_all inChunkV (q @ [n])"
    using inv n(1) by (simp add: blkInv_def)
  show ?thesis
  proof (cases "0 \<le> ni \<and> ni < int (length light)")
    case False
    then have "light' = light"
      unfolding light'_def by (rule ta_set_outside)
    with inv lvl q show ?thesis
      unfolding v by (simp add: blkInv_def)
  next
    case True
    have r: "0 \<le> lightAt light ni mod 16" "lightAt light ni mod 16 < 16"
      by simp_all
    have at: "lightAt light' j =
        (if j = ni then 16 * (lightAt light ni div 16) + (level - 1) else lightAt light j)" for j
      unfolding light'_def lightAt_blk_write [OF nl] using True by simp
    have other: "blkLevel light' C = blkLevel light C" if "inChunkV C" "C \<noteq> n" for C
    proof -
      have "voxelIndex C \<noteq> ni"
        using voxelIndex_inj [OF that(1) n(1)] that(2) n(4) by auto
      then show ?thesis by (simp add: blkLevel_def at)
    qed
    have new: "blkLevel light' n = level - 1"
      using nl stored(3) by (simp add: blkLevel_def n(4) at and15)
    have old: "blkLevel light n < level - 1"
      using stored(4) by (simp add: blkLevel_def n(4) ni_def)
    have "litFrom (emitter blocks emissions) (transparentV blocks isT) (blkLevel light')"
    proof (rule litFrom_write [where val = "blkLevel light" and e = "(bx, by, bz)" and n = n])
      show "litFrom (emitter blocks emissions) (transparentV blocks isT) (blkLevel light)"
        using inv by (simp add: blkInv_def)
      show "inChunkV (bx, by, bz)" using e by simp
      show "inChunkV n" "transparentV blocks isT n" "adjacent (bx, by, bz) n" by (rule n)+
      show "blkLevel light' n \<le> blkLevel light (bx, by, bz)"
        using new lvl(1) by simp
      show "blkLevel light' C = blkLevel light C" if "inChunkV C" "C \<noteq> n" for C
        using that by (rule other)
      show "blkLevel light n \<le> blkLevel light' n"
        using new old by simp
    qed
    moreover have "sunKept light light'"
      using nl by (simp add: sunKept_def at drop_bit_eq_div)
    then have "emissionsOk emissions \<longrightarrow> sunKept light0 light'"
      using inv sunKept_trans [of light0 light light'] by (auto simp add: blkInv_def)
    moreover have "level \<le> blkLevel light' (bx, by, bz)"
    proof (cases "(bx, by, bz) = n")
      case True
      then show ?thesis using new old lvl(1) by simp
    next
      case False
      with other [of "(bx, by, bz)"] e lvl(1) show ?thesis by simp
    qed
    ultimately show ?thesis
      unfolding v using q by (simp add: blkInv_def)
  qed
qed

lemma blkStep_inv:
  assumes "blkInv blocks isT emissions light0 (light, e # rest)"
  shows "blkInv blocks isT emissions light0 (blkStep blocks isT e (light, rest))"
proof -
  obtain bx "by" bz where e: "e = (bx, by, bz)" by (cases e)
  define level where "level = lightAt light (blockIndex bx by bz) AND 0x0F"
  have st: "blkStep blocks isT e (light, rest)
      = fold (blkVisit blocks isT bx by bz level) [0..<6] (light, rest)"
    by (simp add: blkStep_def e level_def)
  have l15: "level \<le> 15" unfolding level_def by (rule blk_level)
  have ine: "inChunk bx by bz"
    using assms by (simp add: blkInv_def e)
  define P where "P = (\<lambda>s. blkInv blocks isT emissions light0 s
      \<and> level \<le> blkLevel (fst s) (bx, by, bz))"
  have "P (light, rest)"
    using assms by (simp add: P_def blkInv_def level_def blkLevel_def)
  then have "P (fold (blkVisit blocks isT bx by bz level) [0..<6] (light, rest))"
  proof (rule fold_invariant [rotated])
    fix d s assume d: "d \<in> set [0..<6]" and s: "P s"
    obtain l q where lq: "s = (l, q)" by (cases s)
    from s d show "P (blkVisit blocks isT bx by bz level d s)"
      unfolding P_def lq
      using blkVisit_inv [of blocks isT emissions light0 l q bx "by" bz level d] ine l15 by simp
  qed
  then show ?thesis
    by (simp add: st P_def)
qed


subsection \<open>Seeding the block light\<close>

definition seedInv ::
  "byte list \<Rightarrow> int list \<Rightarrow> byte list \<Rightarrow> byte list \<times> voxel list \<Rightarrow> bool" where
  "seedInv blocks emissions light0 s \<longleftrightarrow>
     (\<forall>B. inChunkV B \<and> 0 < blkLevel (fst s) B \<longrightarrow> emitter blocks emissions B) \<and>
     list_all inChunkV (snd s) \<and>
     (emissionsOk emissions \<longrightarrow> sunKept light0 (fst s))"

lemma seedInvD:
  "seedInv blocks emissions light0 s \<Longrightarrow> inChunkV B \<Longrightarrow> 0 < blkLevel (fst s) B
     \<Longrightarrow> emitter blocks emissions B"
  unfolding seedInv_def by blast

lemma emissionAt_ok: "emissionsOk emissions \<Longrightarrow> emissionAt blocks emissions i \<le> 15"
  by (auto simp add: emissionsOk_def emissionAt_def list_all_length split: option.splits)

lemma seedColumn_inv:
  assumes x: "0 \<le> x" "x < CHUNK_SIZE" and z: "0 \<le> z" "z < CHUNK_SIZE"
    and inv: "seedInv blocks emissions light0 s"
  shows "seedInv blocks emissions light0 (seedColumn blocks emissions x z s)"
  unfolding seedColumn_def using inv
proof (rule fold_invariant [rotated])
  fix y s
  assume y: "y \<in> set [0..<nat CHUNK_HEIGHT]" and s: "seedInv blocks emissions light0 s"
  obtain light q where lq: "s = (light, q)" by (cases s)
  define i where "i = blockIndex x (int y) z"
  define em where "em = emissionAt blocks emissions i"
  define light' where "light' = ta_set light i ((lightAt light i AND 0xF0) OR em)"
  have V: "inChunkV (x, int y, z)" "voxelIndex (x, int y, z) = i"
    using x z y by (simp_all add: inChunk_def i_def CHUNK_HEIGHT_def)
  show "seedInv blocks emissions light0
     (case s of (light, blkQ) \<Rightarrow>
        let i = blockIndex x (int y) z; em = emissionAt blocks emissions i in
        if em > 0
        then (ta_set light i ((lightAt light i AND 0xF0) OR em), blkQ @ [(x, int y, z)])
        else s)"
  proof (cases "0 < em")
    case False
    with s show ?thesis
      by (simp add: lq Let_def em_def i_def)
  next
    case True
    have src: "emitter blocks emissions (x, int y, z)"
      using True by (simp add: emitter_def em_def i_def)
    have "emitter blocks emissions B" if "inChunkV B" "0 < blkLevel light' B" for B
    proof (cases "B = (x, int y, z)")
      case True
      with src show ?thesis by simp
    next
      case False
      then have "voxelIndex B \<noteq> i"
        using voxelIndex_inj [OF that(1) V(1)] V(2) by auto
      then have "blkLevel light' B = blkLevel light B"
        by (simp add: blkLevel_def light'_def lightAt_ta_set)
      with that seedInvD [OF s, of B] show ?thesis
        by (simp add: lq)
    qed
    moreover have "sunKept light0 light'" if ok: "emissionsOk emissions"
    proof -
      have e15: "0 \<le> em" "em \<le> 15"
        using True emissionAt_ok [OF ok, of blocks i] by (simp_all add: em_def)
      have "sunKept light light'"
        unfolding sunKept_def light'_def lightAt_blk_write [OF e15]
        using e15 by (simp add: drop_bit_eq_div)
      moreover have "sunKept light0 light"
        using s ok by (simp add: seedInv_def lq)
      ultimately show ?thesis
        using sunKept_trans by blast
    qed
    moreover have "list_all inChunkV (q @ [(x, int y, z)])"
      using s V(1) by (simp add: seedInv_def lq)
    ultimately have "seedInv blocks emissions light0 (light', q @ [(x, int y, z)])"
      by (simp add: seedInv_def)
    with True show ?thesis
      by (simp add: lq Let_def em_def [symmetric] i_def [symmetric] light'_def)
  qed
qed

lemma seedInv_blkInv:
  assumes "seedInv blocks emissions light0 s"
  shows "blkInv blocks isT emissions light0 s"
proof -
  have "litFrom (emitter blocks emissions) (transparentV blocks isT) (blkLevel (fst s))"
    using seedInvD [OF assms] by (intro litFrom_sources)
  with assms show ?thesis
    by (simp add: seedInv_def blkInv_def)
qed

subsection \<open>The invariant of the whole computation\<close>

lemma calculateLight_inv:
  "\<exists>out. calculateLight blocks light isT emissions = Some out \<and>
     litFrom (emitter blocks emissions) (transparentV blocks isT) (blkLevel out) \<and>
     (emissionsOk emissions \<longrightarrow>
        litFrom (skyOpen blocks isT) (transparentV blocks isT) (sunLevel out))"
proof -
  define l1 where "l1 = columnSunlight blocks isT (map (\<lambda>b. 0) light)"
  define q1 where "q1 = sunSeeds blocks isT l1"
  have "sunInv blocks isT (l1, q1)"
    unfolding l1_def q1_def
    by (intro columnLit_sunInv columnSunlight_lit sunSeeds_inChunk)
  from queueLoop_total [of sunMeasure "sunStep blocks isT" "sunInv blocks isT",
      OF sunStep_measure sunStep_inv this]
  obtain l2 where l2: "queueLoop (sunStep blocks isT) q1 l1 = Some l2"
    and i2: "sunInv blocks isT (l2, [])"
    by blast
  have low: "blkLevel l2 B = 0" for B
    using i2 by (simp add: sunInv_def blkLevel_def)
  obtain l3 q3 where s3: "forXZ (seedColumn blocks emissions) (l2, []) = (l3, q3)"
    by (cases "forXZ (seedColumn blocks emissions) (l2, [])")
  have "seedInv blocks emissions l2 (l2, [])"
    by (simp add: seedInv_def low sunKept_def)
  then have "seedInv blocks emissions l2 (forXZ (seedColumn blocks emissions) (l2, []))"
    by (rule forXZ_invariant [rotated]) (rule seedColumn_inv)
  then have "blkInv blocks isT emissions l2 (l3, q3)"
    unfolding s3 by (rule seedInv_blkInv)
  from queueLoop_total [of blkMeasure "blkStep blocks isT" "blkInv blocks isT emissions l2",
      OF blkStep_measure blkStep_inv this]
  obtain out where out: "queueLoop (blkStep blocks isT) q3 l3 = Some out"
    and io: "blkInv blocks isT emissions l2 (out, [])"
    by blast
  have c: "calculateLight blocks light isT emissions = Some out"
    by (simp add: calculateLight_def Let_def l1_def [symmetric] q1_def [symmetric] l2 s3 out)
  have "litFrom (skyOpen blocks isT) (transparentV blocks isT) (sunLevel out)"
    if "emissionsOk emissions"
  proof -
    have "sunLevel out = sunLevel l2"
      using io that by (auto simp add: blkInv_def sunKept_def sunLevel_def)
    with i2 show ?thesis by (simp add: sunInv_def)
  qed
  with c io show ?thesis
    by (simp add: blkInv_def)
qed


subsection \<open>A write only ever raises a nibble\<close>

text \<open>
  \<open>sunRaised light light'\<close>: every byte of \<open>light'\<close> is the byte of \<open>light\<close>, or has a
  strictly greater sun nibble and the same block nibble; \<open>blkRaised\<close> the other way round.
\<close>

definition sunRaised :: "byte list \<Rightarrow> byte list \<Rightarrow> bool" where
  "sunRaised light light' \<longleftrightarrow>
     (\<forall>i. lightAt light' i = lightAt light i \<or>
          (drop_bit 4 (lightAt light i) < drop_bit 4 (lightAt light' i) \<and>
           lightAt light' i AND 0x0F = lightAt light i AND 0x0F))"

definition blkRaised :: "byte list \<Rightarrow> byte list \<Rightarrow> bool" where
  "blkRaised light light' \<longleftrightarrow>
     (\<forall>i. lightAt light' i = lightAt light i \<or>
          (lightAt light i AND 0x0F < lightAt light' i AND 0x0F \<and>
           drop_bit 4 (lightAt light' i) = drop_bit 4 (lightAt light i)))"

lemma sunRaised_refl: "sunRaised light light"
  by (simp add: sunRaised_def)

lemma sunRaised_trans: "sunRaised a b \<Longrightarrow> sunRaised b c \<Longrightarrow> sunRaised a c"
  unfolding sunRaised_def
proof
  fix i
  assume ab: "\<forall>i. lightAt b i = lightAt a i \<or>
      (drop_bit 4 (lightAt a i) < drop_bit 4 (lightAt b i) \<and> lightAt b i AND 0x0F = lightAt a i AND 0x0F)"
    and bc: "\<forall>i. lightAt c i = lightAt b i \<or>
      (drop_bit 4 (lightAt b i) < drop_bit 4 (lightAt c i) \<and> lightAt c i AND 0x0F = lightAt b i AND 0x0F)"
  from ab [rule_format, of i] bc [rule_format, of i]
  show "lightAt c i = lightAt a i \<or>
      (drop_bit 4 (lightAt a i) < drop_bit 4 (lightAt c i) \<and> lightAt c i AND 0x0F = lightAt a i AND 0x0F)"
    by (elim disjE conjE) simp_all
qed

lemma blkRaised_refl: "blkRaised light light"
  by (simp add: blkRaised_def)

lemma blkRaised_trans: "blkRaised a b \<Longrightarrow> blkRaised b c \<Longrightarrow> blkRaised a c"
  unfolding blkRaised_def
proof
  fix i
  assume ab: "\<forall>i. lightAt b i = lightAt a i \<or>
      (lightAt a i AND 0x0F < lightAt b i AND 0x0F \<and> drop_bit 4 (lightAt b i) = drop_bit 4 (lightAt a i))"
    and bc: "\<forall>i. lightAt c i = lightAt b i \<or>
      (lightAt b i AND 0x0F < lightAt c i AND 0x0F \<and> drop_bit 4 (lightAt c i) = drop_bit 4 (lightAt b i))"
  from ab [rule_format, of i] bc [rule_format, of i]
  show "lightAt c i = lightAt a i \<or>
      (lightAt a i AND 0x0F < lightAt c i AND 0x0F \<and> drop_bit 4 (lightAt c i) = drop_bit 4 (lightAt a i))"
    by (elim disjE conjE) simp_all
qed

lemma sunVisit_raised:
  assumes "level \<le> 15"
  shows "sunRaised light (fst (sunVisit blocks isT sx sy sz level d (light, q)))"
proof (cases rule: sunVisit_cases [of blocks isT sx sy sz level d light q])
  case same
  then show ?thesis by (simp add: sunRaised_refl)
next
  case (stored newLevel)
  define ni where "ni = blockIndex (sx + DX d) (sy + DY d) (sz + DZ d)"
  have nl: "0 \<le> newLevel" "newLevel \<le> 15"
    using stored(3,5) assms by simp_all
  have "lightAt (ta_set light ni (push_bit 4 newLevel OR (lightAt light ni AND 0x0F))) i
        = lightAt light i \<or>
      (drop_bit 4 (lightAt light i)
        < drop_bit 4 (lightAt (ta_set light ni
            (push_bit 4 newLevel OR (lightAt light ni AND 0x0F))) i) \<and>
       lightAt (ta_set light ni (push_bit 4 newLevel OR (lightAt light ni AND 0x0F))) i AND 0x0F
        = lightAt light i AND 0x0F)" for i
    unfolding lightAt_sun_write [OF nl]
    using stored(6) by (simp add: ni_def [symmetric] drop_bit_eq_div and15)
  then show ?thesis
    unfolding stored(7) sunRaised_def ni_def by simp
qed

lemma blkVisit_raised:
  assumes "level \<le> 15"
  shows "blkRaised light (fst (blkVisit blocks isT bx by bz level d (light, q)))"
proof (cases rule: blkVisit_cases [of blocks isT bx "by" bz level d light q])
  case same
  then show ?thesis by (simp add: blkRaised_refl)
next
  case stored
  define ni where "ni = blockIndex (bx + DX d) (by + DY d) (bz + DZ d)"
  have nl: "0 \<le> level - 1" "level - 1 \<le> 15"
    using stored(3) assms by simp_all
  have "lightAt (ta_set light ni ((lightAt light ni AND 0xF0) OR (level - 1))) i
        = lightAt light i \<or>
      (lightAt light i AND 0x0F
        < lightAt (ta_set light ni ((lightAt light ni AND 0xF0) OR (level - 1))) i AND 0x0F \<and>
       drop_bit 4 (lightAt (ta_set light ni ((lightAt light ni AND 0xF0) OR (level - 1))) i)
        = drop_bit 4 (lightAt light i))" for i
    unfolding lightAt_blk_write [OF nl]
    using stored(3,4) nl by (simp add: ni_def [symmetric] drop_bit_eq_div and15)
  then show ?thesis
    unfolding stored(5) blkRaised_def ni_def by simp
qed

lemma sunStep_raised: "sunRaised light (fst (sunStep blocks isT e (light, q)))"
proof -
  obtain sx sy sz where e: "e = (sx, sy, sz)" by (cases e)
  define level where "level = drop_bit 4 (lightAt light (blockIndex sx sy sz))"
  have l15: "level \<le> 15" unfolding level_def by (rule sun_level)
  have "sunRaised light (fst (fold (sunVisit blocks isT sx sy sz level) [0..<6] (light, q)))"
  proof (rule fold_invariant [where P = "\<lambda>s :: byte list \<times> voxel list. sunRaised light (fst s)"])
    show "sunRaised light (fst (light, q))" by (simp add: sunRaised_refl)
  next
    fix d and s :: "byte list \<times> voxel list"
    assume "sunRaised light (fst s)"
    moreover obtain l q' where "s = (l, q')" by (cases s)
    ultimately show "sunRaised light (fst (sunVisit blocks isT sx sy sz level d s))"
      using sunVisit_raised [OF l15, of l blocks isT sx sy sz d q'] sunRaised_trans by auto
  qed
  then show ?thesis
    by (simp add: sunStep_def e level_def)
qed

lemma blkStep_raised: "blkRaised light (fst (blkStep blocks isT e (light, q)))"
proof -
  obtain bx "by" bz where e: "e = (bx, by, bz)" by (cases e)
  define level where "level = lightAt light (blockIndex bx by bz) AND 0x0F"
  have l15: "level \<le> 15" unfolding level_def by (rule blk_level)
  have "blkRaised light (fst (fold (blkVisit blocks isT bx by bz level) [0..<6] (light, q)))"
  proof (rule fold_invariant [where P = "\<lambda>s :: byte list \<times> voxel list. blkRaised light (fst s)"])
    show "blkRaised light (fst (light, q))" by (simp add: blkRaised_refl)
  next
    fix d and s :: "byte list \<times> voxel list"
    assume "blkRaised light (fst s)"
    moreover obtain l q' where "s = (l, q')" by (cases s)
    ultimately show "blkRaised light (fst (blkVisit blocks isT bx by bz level d s))"
      using blkVisit_raised [OF l15, of l blocks isT bx "by" bz d q'] blkRaised_trans by auto
  qed
  then show ?thesis
    by (simp add: blkStep_def e level_def)
qed

lemma sunLevel_nonneg: "0 \<le> sunLevel light v"
  using lightAt_range [of light "voxelIndex v"] by (simp add: sunLevel_def)

lemma blkLevel_nonneg: "0 \<le> blkLevel light v"
  by (simp add: blkLevel_def and15)


subsection \<open>A small cave\<close>

text \<open>
  A chunk of stone (block 1) with a two-voxel shaft of air (block 0) open to the sky at
  (8, 254..255, 8), an air pocket beside its foot at (9, 254, 8), and a glowing opaque
  block (block 2, emission 15) under the pocket at (9, 253, 8).
\<close>

definition caveBlocks :: "byte list" where
  "caveBlocks = map (\<lambda>i. if i = 35070 \<or> i = 35071 \<or> i = 39166 then 0
                          else if i = 39165 then 2 else 1) [0..<CHUNK_VOLUME]"

definition caveTransparent :: "bool list" where
  "caveTransparent = [True, False, False]"

definition caveEmissions :: "int list" where
  "caveEmissions = [0, 0, 15]"

lemma voxelIndex_range:
  assumes "inChunkV v"
  shows "0 \<le> voxelIndex v" and "voxelIndex v < 65536"
proof -
  obtain x y z where v: "v = (x, y, z)" by (cases v)
  from assms have b: "0 \<le> x" "x < 16" "0 \<le> y" "y < 256" "0 \<le> z" "z < 16"
    by (simp_all add: v inChunk_def CHUNK_SIZE_def CHUNK_HEIGHT_def)
  have i: "voxelIndex v = 4096 * x + 256 * z + y"
    by (simp add: v blockIndex_def CHUNK_SIZE_def CHUNK_HEIGHT_def algebra_simps)
  show "0 \<le> voxelIndex v" unfolding i using b by linarith
  show "voxelIndex v < 65536" unfolding i using b by linarith
qed

lemma cave_read:
  assumes "0 \<le> i" "i < 65536"
  shows "ta_get caveBlocks i =
     Some (if i = 35070 \<or> i = 35071 \<or> i = 39166 then 0 else if i = 39165 then 2 else 1)"
proof -
  have "nat i < CHUNK_VOLUME"
    using assms by (simp add: CHUNK_VOLUME_def)
  from ta_get_map [OF assms(1) this] assms(1) show ?thesis
    unfolding caveBlocks_def by (simp add: nat_eq_iff)
qed

lemma cave_transparent:
  assumes "inChunkV v"
  shows "transparentV caveBlocks caveTransparent v \<longleftrightarrow>
     v = (8, 254, 8) \<or> v = (8, 255, 8) \<or> v = (9, 254, 8)"
proof -
  have i: "voxelIndex (8, 254, 8) = 35070" "voxelIndex (8, 255, 8) = 35071"
      "voxelIndex (9, 254, 8) = 39166"
    by (simp_all add: blockIndex_def CHUNK_SIZE_def CHUNK_HEIGHT_def)
  have c: "inChunkV (8, 254, 8)" "inChunkV (8, 255, 8)" "inChunkV (9, 254, 8)"
    by (simp_all add: inChunk_def CHUNK_SIZE_def CHUNK_HEIGHT_def)
  have "transparentV caveBlocks caveTransparent v \<longleftrightarrow>
      voxelIndex v = 35070 \<or> voxelIndex v = 35071 \<or> voxelIndex v = 39166"
    using cave_read [OF voxelIndex_range [OF assms]]
    by (simp add: transparentV_def transparentAt_def caveTransparent_def)
  also have "\<dots> \<longleftrightarrow> v = (8, 254, 8) \<or> v = (8, 255, 8) \<or> v = (9, 254, 8)"
    using voxelIndex_inj [OF assms c(1)] voxelIndex_inj [OF assms c(2)]
      voxelIndex_inj [OF assms c(3)] i by auto
  finally show ?thesis .
qed

lemma cave_emitter:
  assumes "inChunkV v" and "emitter caveBlocks caveEmissions v"
  shows "v = (9, 253, 8)"
proof -
  have i: "voxelIndex (9, 253, 8) = 39165"
    by (simp add: blockIndex_def CHUNK_SIZE_def CHUNK_HEIGHT_def)
  have c: "inChunkV (9, 253, 8)"
    by (simp add: inChunk_def CHUNK_SIZE_def CHUNK_HEIGHT_def)
  have "voxelIndex v = 39165"
    using cave_read [OF voxelIndex_range [OF assms(1)]] assms(2)
    by (simp add: emitter_def emissionAt_def caveEmissions_def split: if_splits)
  with voxelIndex_inj [OF assms(1) c] i show ?thesis by simp
qed

lemma skyOpen_transparent:
  assumes "inChunkV v" and "skyOpen blocks isT v"
  shows "transparentV blocks isT v"
proof -
  obtain x y z where v: "v = (x, y, z)" by (cases v)
  from assms(1) have "0 \<le> y" "y < 256"
    by (simp_all add: v inChunk_def CHUNK_HEIGHT_def)
  then have "nat y \<in> set [nat y..<nat CHUNK_HEIGHT]"
    by (simp add: CHUNK_HEIGHT_def)
  with assms(2) have "transparentAt blocks isT (blockIndex x (int (nat y)) z)"
    unfolding v skyOpen_def list_all_iff by (simp only: prod.case)
  with \<open>0 \<le> y\<close> show ?thesis
    by (simp add: v transparentV_def)
qed

lemma lightPath_head:
  "lightPath src tr (u # p) \<Longrightarrow> inChunkV u \<and> (src u \<or> tr u)"
  by (cases p) auto

lemma adjacent_iff:
  "adjacent (x, y, z) v \<longleftrightarrow>
     v = (x + 1, y, z) \<or> v = (x - 1, y, z) \<or> v = (x, y + 1, z) \<or>
     v = (x, y - 1, z) \<or> v = (x, y, z + 1) \<or> v = (x, y, z - 1)"
proof -
  have l: "[0..<6] = [0, 1, 2, 3, 4, 5]"
    by (simp add: upt_rec)
  show ?thesis
    unfolding adjacent_def l by (simp add: DX_def DY_def DZ_def)
qed

lemma unique_source:
  assumes "\<And>v. inChunkV v \<Longrightarrow> src v \<Longrightarrow> v = A"
  shows "reachableOnlyThrough src tr A B"
  unfolding reachableOnlyThrough_def
proof (intro allI impI)
  fix p assume p: "lightPath src tr (B # p)"
  from lightPath_source [OF p] lightPath_inChunk [OF p] assms
  have "last (B # p) = A" by blast
  with lightPath_source [OF p] show "A \<in> set (B # p)" by metis
qed

lemma cave_pocket_sun:
  "reachableOnlyThrough (skyOpen caveBlocks caveTransparent)
     (transparentV caveBlocks caveTransparent) (8, 254, 8) (9, 254, 8)"
  unfolding reachableOnlyThrough_def
proof (intro allI impI)
  fix p
  assume p: "lightPath (skyOpen caveBlocks caveTransparent)
     (transparentV caveBlocks caveTransparent) ((9, 254, 8) # p)"
  have "inChunkV (9, 255, 8)"
    by (simp add: inChunk_def CHUNK_SIZE_def CHUNK_HEIGHT_def)
  then have top: "\<not> transparentV caveBlocks caveTransparent (9, 255, 8)"
    by (simp add: cave_transparent)
  have dark: "\<not> skyOpen caveBlocks caveTransparent (9, 254, 8)"
  proof
    assume "skyOpen caveBlocks caveTransparent (9, 254, 8)"
    then have "transparentAt caveBlocks caveTransparent (blockIndex 9 (int 255) 8)"
      unfolding skyOpen_def list_all_iff by (simp only: prod.case) (simp add: CHUNK_HEIGHT_def)
    with top show False by (simp add: transparentV_def)
  qed
  show "(8, 254, 8) \<in> set ((9, 254, 8) # p)"
  proof (cases p)
    case Nil
    with p dark show ?thesis by simp
  next
    case (Cons u p')
    with p have a: "adjacent u (9, 254, 8)" and u: "lightPath (skyOpen caveBlocks caveTransparent)
        (transparentV caveBlocks caveTransparent) (u # p')"
      by simp_all
    from lightPath_head [OF u] skyOpen_transparent [of u caveBlocks caveTransparent]
    have "inChunkV u" "transparentV caveBlocks caveTransparent u" by auto
    then have "u = (8, 254, 8) \<or> u = (8, 255, 8) \<or> u = (9, 254, 8)"
      by (simp add: cave_transparent)
    with a have "u = (8, 254, 8)"
      by (auto simp add: adjacent_iff)
    then show ?thesis by (simp add: Cons)
  qed
qed

text \<open>
  Claim C6.  \<open>calculateLight\<close> returns, and in the light array it returns: if every path of
  block light to a voxel \<open>B\<close> of the chunk passes through \<open>A\<close>, the block-light nibble of \<open>B\<close>
  is at most that of \<open>A\<close>; if no emission exceeds 15 (the documented range) and every path
  of sunlight to \<open>B\<close> passes through \<open>A\<close>, the sun nibble of \<open>B\<close> is at most that of \<open>A\<close>
  (equal where sunlight went straight down at level 15).  During either flood fill, one
  iteration of the loop leaves each byte as it was or stores a strictly greater nibble.
\<close>

theorem light_monotonicity:
  "\<exists>out. calculateLight blocks light isT emissions = Some out \<and>
     (\<forall>A B. inChunkV B \<and>
        reachableOnlyThrough (emitter blocks emissions) (transparentV blocks isT) A B
        \<longrightarrow> blkLevel out B \<le> blkLevel out A) \<and>
     (emissionsOk emissions \<longrightarrow>
        (\<forall>A B. inChunkV B \<and>
           reachableOnlyThrough (skyOpen blocks isT) (transparentV blocks isT) A B
           \<longrightarrow> sunLevel out B \<le> sunLevel out A)) \<and>
     (\<forall>e l q. sunRaised l (fst (sunStep blocks isT e (l, q)))) \<and>
     (\<forall>e l q. blkRaised l (fst (blkStep blocks isT e (l, q))))"
proof -
  from calculateLight_inv [of blocks light isT emissions] obtain out where
    c: "calculateLight blocks light isT emissions = Some out"
    and b: "litFrom (emitter blocks emissions) (transparentV blocks isT) (blkLevel out)"
    and s: "emissionsOk emissions \<Longrightarrow>
        litFrom (skyOpen blocks isT) (transparentV blocks isT) (sunLevel out)"
    by blast
  have "blkLevel out B \<le> blkLevel out A"
    if "inChunkV B"
      "reachableOnlyThrough (emitter blocks emissions) (transparentV blocks isT) A B" for A B
    using litFrom_only_through [OF b that blkLevel_nonneg] .
  moreover have "sunLevel out B \<le> sunLevel out A"
    if "emissionsOk emissions" "inChunkV B"
      "reachableOnlyThrough (skyOpen blocks isT) (transparentV blocks isT) A B" for A B
    using litFrom_only_through [OF s [OF that(1)] that(2,3) sunLevel_nonneg] .
  ultimately show ?thesis
    using c sunStep_raised blkStep_raised by blast
qed

theorem light_monotonicity_witness:
  "emissionsOk caveEmissions \<and> inChunkV (9, 254, 8) \<and>
   reachableOnlyThrough (emitter caveBlocks caveEmissions)
     (transparentV caveBlocks caveTransparent) (9, 253, 8) (9, 254, 8) \<and>
   reachableOnlyThrough (skyOpen caveBlocks caveTransparent)
     (transparentV caveBlocks caveTransparent) (8, 254, 8) (9, 254, 8) \<and>
   (\<exists>out. calculateLight caveBlocks (fillChunk 0) caveTransparent caveEmissions = Some out \<and>
      blkLevel out (9, 254, 8) \<le> blkLevel out (9, 253, 8) \<and>
      sunLevel out (9, 254, 8) \<le> sunLevel out (8, 254, 8))"
proof -
  have ok: "emissionsOk caveEmissions"
    by (simp add: emissionsOk_def caveEmissions_def)
  have inb: "inChunkV (9, 254, 8)"
    by (simp add: inChunk_def CHUNK_SIZE_def CHUNK_HEIGHT_def)
  have blk: "reachableOnlyThrough (emitter caveBlocks caveEmissions)
     (transparentV caveBlocks caveTransparent) (9, 253, 8) (9, 254, 8)"
    by (rule unique_source) (rule cave_emitter)
  from light_monotonicity [of caveBlocks "fillChunk 0" caveTransparent caveEmissions]
  obtain out where
    "calculateLight caveBlocks (fillChunk 0) caveTransparent caveEmissions = Some out"
    "blkLevel out (9, 254, 8) \<le> blkLevel out (9, 253, 8)"
    "sunLevel out (9, 254, 8) \<le> sunLevel out (8, 254, 8)"
    using ok inb blk cave_pocket_sun by blast
  with ok inb blk cave_pocket_sun show ?thesis by blast
qed

end
